theory Spec2Isabelle
  imports Main "HOL-Library.Word"
begin

unbundle bit_operations_syntax

section \<open>Packet-ID receive state (pktid.c)\<close>

text \<open>
  The C integer types of the receive state: \<open>__u8\<close>, \<open>__u32\<close> and \<open>unsigned int\<close>
  are 8- and 32-bit words; \<open>unsigned long\<close> (jiffies) is a 64-bit word, as on a 64-bit
  kernel. All arithmetic below is word arithmetic, so it wraps as the C does. The model
  is of the code with \<open>ENABLE_REPLAY_PROTECTION\<close> set; without it \<open>ovpn_pktid_recv\<close>
  accepts everything.
\<close>

type_synonym u8 = "8 word"
type_synonym u32 = "32 word"
type_synonym ulong = "64 word"

text \<open>
  Modelled from the spec: \<open>pktid.h\<close>, which declares \<open>struct ovpn_pktid_recv\<close> and the
  macros \<open>REPLAY_WINDOW_SIZE\<close>, \<open>REPLAY_INDEX\<close> and \<open>PKTID_RECV_EXPIRE\<close>, is not among the
  sources. The spec gives the window as a byte array of \<open>W\<close> bits, \<open>W\<close> a multiple of 8 and
  a power of two, and the ring index as \<open>ri(base, k) = (base + k) mod W\<close>. The window
  order \<open>ord\<close> (the array has \<open>2 ^ ord\<close> bytes) and the expiry interval are parameters
  of every definition below.
\<close>

definition REPLAY_WINDOW_BYTES :: "nat \<Rightarrow> nat" where
  "REPLAY_WINDOW_BYTES ord = 2 ^ ord"

definition REPLAY_WINDOW_SIZE :: "nat \<Rightarrow> u32" where
  "REPLAY_WINDOW_SIZE ord = of_nat (REPLAY_WINDOW_BYTES ord * 8)"

definition REPLAY_INDEX :: "nat \<Rightarrow> u32 \<Rightarrow> u32 \<Rightarrow> u32" where
  "REPLAY_INDEX ord b i = (b + i) mod REPLAY_WINDOW_SIZE ord"

text \<open>
  The fields of \<open>struct ovpn_pktid_recv\<close> that \<open>pktid.c\<close> reads and writes, without the
  lock. The field \<open>id\<close> of the C structure is \<open>id_recv\<close> here. The array \<open>history\<close> has
  \<open>REPLAY_WINDOW_BYTES\<close> elements.
\<close>

record ovpn_pktid_recv =
  history :: "u8 list"
  base :: u32
  extent :: u32
  expire :: ulong
  id_recv :: u32
  time :: u32
  id_floor :: u32
  max_backtrack :: u32

datatype ovpn_err =
    OVPN_ERR_PKTID_ID_ZERO
  | OVPN_ERR_PKTID_TIME_BACKTRACK
  | OVPN_ERR_PKTID_REPLAY
  | OVPN_ERR_PKTID_EXPIRE
  | OVPN_ERR_PKTID_ID_BACKTRACK

text \<open>\<open>ovpn_pktid_recv_init\<close>: the \<open>memset\<close> to zero.\<close>

definition ovpn_pktid_recv_init :: "nat \<Rightarrow> ovpn_pktid_recv" where
  "ovpn_pktid_recv_init ord =
     \<lparr> history = replicate (REPLAY_WINDOW_BYTES ord) 0, base = 0, extent = 0, expire = 0,
       id_recv = 0, time = 0, id_floor = 0, max_backtrack = 0 \<rparr>"

text \<open>
  The kernel's \<open>time_after_eq(a, b)\<close> is \<open>(long)(a - b) >= 0\<close>: a signed reading of the
  wrapped difference.
\<close>

definition time_after_eq :: "ulong \<Rightarrow> ulong \<Rightarrow> bool" where
  "time_after_eq a b = (0 \<le>s a - b)"

text \<open>
  The three accesses to the bitmap: \<open>history[i / 8] |= (1 << (i % 8))\<close>,
  \<open>history[i / 8] &= ~(1 << (i % 8))\<close> and the test \<open>history[i / 8] & (1 << (i % 8))\<close>.
  Every index the code uses is a \<open>REPLAY_INDEX\<close>, hence below the number of bits of
  the array.
\<close>

definition hist_set :: "u8 list \<Rightarrow> nat \<Rightarrow> u8 list" where
  "hist_set h i = h[i div 8 := (h ! (i div 8)) OR push_bit (i mod 8) 1]"

definition hist_clear :: "u8 list \<Rightarrow> nat \<Rightarrow> u8 list" where
  "hist_clear h i = h[i div 8 := (h ! (i div 8)) AND NOT (push_bit (i mod 8) 1)]"

definition hist_test :: "u8 list \<Rightarrow> nat \<Rightarrow> bool" where
  "hist_test h i = ((h ! (i div 8)) AND push_bit (i mod 8) 1 \<noteq> 0)"

text \<open>
  The loop \<open>for (i = 1; i < delta; ++i)\<close> of the forward jump, which clears the bits of
  the ids that were skipped. It is entered with \<open>i = 1\<close>.
\<close>

function clear_skipped :: "nat \<Rightarrow> u32 \<Rightarrow> u32 \<Rightarrow> u32 \<Rightarrow> u8 list \<Rightarrow> u8 list" where
  "clear_skipped ord b i delta h =
     (if i < delta
      then clear_skipped ord b (i + 1) delta (hist_clear h (unat (REPLAY_INDEX ord b i)))
      else h)"
  by pat_completeness auto
termination
proof (relation "measure (\<lambda>(ord, b, i, delta, h). unat delta - unat i)")
  show "wf (measure (\<lambda>(ord, b, i, delta, h). unat delta - unat i))"
    by simp
next
  fix ord :: nat and b i delta :: u32 and h :: "u8 list"
  assume less: "i < delta"
  then have "unat i < unat delta"
    by (simp add: word_less_nat_alt)
  moreover have "unat delta < 2 ^ 32"
    using unsigned_less [of delta, where 'a = nat] by simp
  ultimately have "unat i + 1 < 2 ^ 32"
    by simp
  then have "unat (i + 1) = unat i + 1"
    by (simp add: unat_word_ariths)
  moreover note \<open>unat i < unat delta\<close>
  ultimately show "((ord, b, i + 1, delta, hist_clear h (unat (REPLAY_INDEX ord b i))),
                    (ord, b, i, delta, h))
                   \<in> measure (\<lambda>(ord, b, i, delta, h). unat delta - unat i)"
    by simp
qed

declare clear_skipped.simps [simp del]

text \<open>
  \<open>__ovpn_pktid_recv\<close>, in the stages of its body: the expiry of the floor, the
  change of epoch, and the three branches on the packet id. \<open>now\<close> is the value of
  \<open>jiffies\<close> read on entry. The function returns \<open>Inr ()\<close> for the C return value 0 and
  \<open>Inl e\<close> for \<open>-e\<close>, together with the state it leaves behind.
\<close>

definition pktid_expire_floor :: "ovpn_pktid_recv \<Rightarrow> ulong \<Rightarrow> ovpn_pktid_recv" where
  "pktid_expire_floor pr now =
     (if time_after_eq now (expire pr) then pr\<lparr>id_floor := id_recv pr\<rparr> else pr)"

definition pktid_time_reset :: "ovpn_pktid_recv \<Rightarrow> u32 \<Rightarrow> ovpn_pktid_recv" where
  "pktid_time_reset pr pkt_time =
     pr\<lparr>base := 0, extent := 0, id_recv := 0, time := pkt_time, id_floor := 0\<rparr>"

text \<open>The common exit \<open>pr->expire = now + PKTID_RECV_EXPIRE; return 0\<close>.\<close>

definition pktid_accept ::
  "ulong \<Rightarrow> ulong \<Rightarrow> ovpn_pktid_recv \<Rightarrow> (ovpn_err + unit) \<times> ovpn_pktid_recv"
where
  "pktid_accept texp now pr = (Inr (), pr\<lparr>expire := now + texp\<rparr>)"

text \<open>The branch \<open>pkt_id == pr->id + 1\<close>.\<close>

definition pktid_advance :: "nat \<Rightarrow> ovpn_pktid_recv \<Rightarrow> u32 \<Rightarrow> ovpn_pktid_recv" where
  "pktid_advance ord pr pkt_id =
     (let b = REPLAY_INDEX ord (base pr) (- 1) in
      pr\<lparr>base := b,
         history := hist_set (history pr) (unat b),
         extent := (if extent pr < REPLAY_WINDOW_SIZE ord then extent pr + 1 else extent pr),
         id_recv := pkt_id\<rparr>)"

text \<open>The branch \<open>pkt_id > pr->id\<close>: the id jumped forward by more than one.\<close>

definition pktid_jump :: "nat \<Rightarrow> ovpn_pktid_recv \<Rightarrow> u32 \<Rightarrow> ovpn_pktid_recv" where
  "pktid_jump ord pr pkt_id =
     (let delta = pkt_id - id_recv pr in
      if delta < REPLAY_WINDOW_SIZE ord then
        (let b = REPLAY_INDEX ord (base pr) (- delta);
             h = hist_set (history pr) (unat b);
             e = extent pr + delta;
             e' = (if e > REPLAY_WINDOW_SIZE ord then REPLAY_WINDOW_SIZE ord else e)
         in pr\<lparr>base := b, history := clear_skipped ord b 1 delta h, extent := e',
               id_recv := pkt_id\<rparr>)
      else
        pr\<lparr>base := 0, extent := REPLAY_WINDOW_SIZE ord,
           history := (replicate (REPLAY_WINDOW_BYTES ord) 0)[0 := 1],
           id_recv := pkt_id\<rparr>)"

text \<open>The last branch: the id backtracks (or repeats the top id).\<close>

definition pktid_backtrack ::
  "nat \<Rightarrow> ulong \<Rightarrow> ovpn_pktid_recv \<Rightarrow> ulong \<Rightarrow> u32 \<Rightarrow> (ovpn_err + unit) \<times> ovpn_pktid_recv"
where
  "pktid_backtrack ord texp pr0 now pkt_id =
     (let delta = id_recv pr0 - pkt_id;
          pr = (if delta > max_backtrack pr0 then pr0\<lparr>max_backtrack := delta\<rparr> else pr0)
      in if delta < extent pr then
           (if pkt_id > id_floor pr then
              (let ri = REPLAY_INDEX ord (base pr) delta in
               if hist_test (history pr) (unat ri)
               then (Inl OVPN_ERR_PKTID_REPLAY, pr)
               else pktid_accept texp now (pr\<lparr>history := hist_set (history pr) (unat ri)\<rparr>))
            else (Inl OVPN_ERR_PKTID_EXPIRE, pr))
         else (Inl OVPN_ERR_PKTID_ID_BACKTRACK, pr))"

definition pktid_window ::
  "nat \<Rightarrow> ulong \<Rightarrow> ovpn_pktid_recv \<Rightarrow> ulong \<Rightarrow> u32 \<Rightarrow> (ovpn_err + unit) \<times> ovpn_pktid_recv"
where
  "pktid_window ord texp pr now pkt_id =
     (if pkt_id = id_recv pr + 1 then pktid_accept texp now (pktid_advance ord pr pkt_id)
      else if pkt_id > id_recv pr then pktid_accept texp now (pktid_jump ord pr pkt_id)
      else pktid_backtrack ord texp pr now pkt_id)"

definition ovpn_pktid_recv_unlocked ::
  "nat \<Rightarrow> ulong \<Rightarrow> ovpn_pktid_recv \<Rightarrow> ulong \<Rightarrow> u32 \<Rightarrow> u32 \<Rightarrow> (ovpn_err + unit) \<times> ovpn_pktid_recv"
where
  "ovpn_pktid_recv_unlocked ord texp pr0 now pkt_id pkt_time =
     (let pr = pktid_expire_floor pr0 now in
      if pkt_id = 0 then (Inl OVPN_ERR_PKTID_ID_ZERO, pr)
      else if pkt_time \<noteq> time pr then
        (if pkt_time > time pr
         then pktid_window ord texp (pktid_time_reset pr pkt_time) now pkt_id
         else (Inl OVPN_ERR_PKTID_TIME_BACKTRACK, pr))
      else pktid_window ord texp pr now pkt_id)"

text \<open>
  \<open>ovpn_pktid_recv\<close> takes the spin lock around the call of \<open>__ovpn_pktid_recv\<close>, which
  is \<open>ovpn_pktid_recv_unlocked\<close> here; in this sequential model the lock has no effect.
\<close>

definition ovpn_pktid_recv ::
  "nat \<Rightarrow> ulong \<Rightarrow> ovpn_pktid_recv \<Rightarrow> ulong \<Rightarrow> u32 \<Rightarrow> u32 \<Rightarrow> (ovpn_err + unit) \<times> ovpn_pktid_recv"
where
  "ovpn_pktid_recv ord texp pr now pkt_id pkt_time =
     ovpn_pktid_recv_unlocked ord texp pr now pkt_id pkt_time"


text \<open>
  Presenting a sequence of packets \<open>(now, pkt_id, pkt_time)\<close> to the detector, one call
  after the other, collecting the return values.
\<close>

fun pktid_recv_seq ::
  "nat \<Rightarrow> ulong \<Rightarrow> ovpn_pktid_recv \<Rightarrow> (ulong \<times> u32 \<times> u32) list
     \<Rightarrow> (ovpn_err + unit) list \<times> ovpn_pktid_recv"
where
  "pktid_recv_seq ord texp pr [] = ([], pr)"
| "pktid_recv_seq ord texp pr ((now, pkt_id, pkt_time) # ps) =
     (let (r, pr') = ovpn_pktid_recv_unlocked ord texp pr now pkt_id pkt_time;
          (rs, pr'') = pktid_recv_seq ord texp pr' ps
      in (r # rs, pr''))"

text \<open>No call of the sequence finds the expiry deadline passed.\<close>

fun pktid_no_expiry ::
  "nat \<Rightarrow> ulong \<Rightarrow> ovpn_pktid_recv \<Rightarrow> (ulong \<times> u32 \<times> u32) list \<Rightarrow> bool"
where
  "pktid_no_expiry ord texp pr [] = True"
| "pktid_no_expiry ord texp pr ((now, pkt_id, pkt_time) # ps) =
     (\<not> time_after_eq now (expire pr) \<and>
      pktid_no_expiry ord texp
        (snd (ovpn_pktid_recv_unlocked ord texp pr now pkt_id pkt_time)) ps)"

text \<open>
  The bit that the window keeps for packet id \<open>p\<close>, at ring index \<open>id - p\<close> from the
  base.
\<close>

definition pktid_seen :: "nat \<Rightarrow> ovpn_pktid_recv \<Rightarrow> u32 \<Rightarrow> bool" where
  "pktid_seen ord pr p =
     hist_test (history pr) (unat (REPLAY_INDEX ord (base pr) (id_recv pr - p)))"

text \<open>The ids \<open>id - W + 1, \<dots>, id\<close> of a full window below the top id.\<close>

definition pktid_window_ids :: "nat \<Rightarrow> ovpn_pktid_recv \<Rightarrow> u32 set" where
  "pktid_window_ids ord pr =
     (\<lambda>j. id_recv pr - of_nat j) ` {0 ..< unat (REPLAY_WINDOW_SIZE ord)}"

text \<open>
  The invariant of the window. \<open>A\<close> is the set of the pairs \<open>(epoch, id)\<close> that the
  detector has accepted so far; the length of the array is part of its C type.
\<close>

definition pktid_accepted ::
  "(u32 \<times> u32) set \<Rightarrow> (ovpn_err + unit) \<Rightarrow> u32 \<Rightarrow> u32 \<Rightarrow> (u32 \<times> u32) set"
where
  "pktid_accepted A r pkt_id pkt_time =
     (case r of Inl e \<Rightarrow> A | Inr u \<Rightarrow> insert (pkt_time, pkt_id) A)"

definition pktid_inv :: "nat \<Rightarrow> ovpn_pktid_recv \<Rightarrow> (u32 \<times> u32) set \<Rightarrow> bool" where
  "pktid_inv ord pr A =
     (length (history pr) = REPLAY_WINDOW_BYTES ord \<and>
      extent pr \<le> REPLAY_WINDOW_SIZE ord \<and>
      (\<forall>j \<in> {0 ..< unat (extent pr)}.
         hist_test (history pr) (unat (REPLAY_INDEX ord (base pr) (of_nat j))) \<longrightarrow>
           j < unat (id_recv pr) \<and> (time pr, id_recv pr - of_nat j) \<in> A))"

text \<open>
  The window records exactly the set \<open>S\<close> of ids, all above \<open>lo\<close>: the ids of \<open>S\<close> are
  at least 1 and at most the top id, the extent reaches down to \<open>lo\<close>, and the bit at
  ring index \<open>j\<close> from the base is set if and only if \<open>id - j\<close> is in \<open>S\<close>.
\<close>

definition pktid_exact :: "nat \<Rightarrow> ovpn_pktid_recv \<Rightarrow> u32 set \<Rightarrow> nat \<Rightarrow> bool" where
  "pktid_exact ord pr S lo =
     (length (history pr) = REPLAY_WINDOW_BYTES ord \<and>
      extent pr \<le> REPLAY_WINDOW_SIZE ord \<and>
      unat (id_recv pr) \<le> lo + unat (extent pr) \<and>
      (\<forall>q \<in> S. q \<noteq> 0 \<and> q \<le> id_recv pr) \<and>
      (\<forall>j \<in> {0 ..< unat (extent pr)}. j < unat (id_recv pr) \<longrightarrow>
         hist_test (history pr) (unat (REPLAY_INDEX ord (base pr) (of_nat j))) =
           (id_recv pr - of_nat j \<in> S)))"

text \<open>The pairs accepted along a sequence of calls, given the return values.\<close>

fun pktid_accepted_seq ::
  "(u32 \<times> u32) set \<Rightarrow> (ovpn_err + unit) list \<Rightarrow> (ulong \<times> u32 \<times> u32) list
     \<Rightarrow> (u32 \<times> u32) set"
where
  "pktid_accepted_seq A (r # rs) ((now, pkt_id, pkt_time) # ps) =
     pktid_accepted_seq (pktid_accepted A r pkt_id pkt_time) rs ps"
| "pktid_accepted_seq A rs ps = A"

section \<open>Packet-ID transmit state\<close>

record ovpn_pktid_xmit =
  seq_num :: "64 word"
  tcp_linear :: "nat option"

text \<open>\<open>ovpn_pktid_xmit_init\<close> (pktid.c): the counter starts at 0.\<close>

definition ovpn_pktid_xmit_init :: ovpn_pktid_xmit where
  "ovpn_pktid_xmit_init = \<lparr> seq_num = 0, tcp_linear = None \<rparr>"

datatype xmit_err = REKEY_NEEDED

text \<open>
  Modelled from the spec: the function that draws the next packet id lives in \<open>pktid.h\<close>,
  which is not among the sources. The spec (4.2) has \<open>next() -> (pkt_id, epoch) |
  Err(REKEY_NEEDED)\<close>: the 64-bit counter is incremented, its low 32 bits are the packet
  id, and when the increment would make the packet id equal \<open>0xFFFFFFFF\<close> or exceed it
  the call fails; transmission cannot continue before a new key is installed, so a
  failed call leaves the counter where it was. The epoch is fixed at context creation
  and passed in.
\<close>

definition ovpn_pktid_xmit_next ::
  "ovpn_pktid_xmit \<Rightarrow> u32 \<Rightarrow> (xmit_err + u32 \<times> u32) \<times> ovpn_pktid_xmit"
where
  "ovpn_pktid_xmit_next pid epoch =
     (let n = seq_num pid + 1 in
      if unat (seq_num pid) + 1 \<ge> 0xFFFFFFFF then (Inl REKEY_NEEDED, pid)
      else (Inr (ucast n, epoch), pid\<lparr>seq_num := n\<rparr>))"

fun xmit_next_seq ::
  "ovpn_pktid_xmit \<Rightarrow> u32 \<Rightarrow> nat \<Rightarrow> (xmit_err + u32 \<times> u32) list \<times> ovpn_pktid_xmit"
where
  "xmit_next_seq pid epoch 0 = ([], pid)"
| "xmit_next_seq pid epoch (Suc n) =
     (let (r, pid') = ovpn_pktid_xmit_next pid epoch;
          (rs, pid'') = xmit_next_seq pid' epoch n
      in (r # rs, pid''))"


section \<open>The datapath (ovpn.c)\<close>

text \<open>
  The datapath functions act on the kernel and on the other modules of the driver
  through calls. The model records the calls a function makes, in order, as a list of
  events, and takes what the callees return from an environment. Reference counts and
  the RCU read-side sections are bookkeeping of the concurrent setting; of these only
  the \<open>put\<close> calls are recorded.
\<close>

record sk_buff =
  data :: "u8 list"
  cb_rx_stats_size :: nat

record ovpn_peer =
  bind :: "nat option"
  crypto_slots :: "(int \<times> nat) list"
  crypto_primary :: "(nat \<times> int) option"

datatype event =
    EV_netlink_send_packet "u8 list"
  | EV_consume_skb
  | EV_kfree_skb
  | EV_kfree_work
  | EV_peer_put
  | EV_crypto_context_put
  | EV_decrypt nat int u32
  | EV_peer_update_keepalive_expire
  | EV_peer_stats_increment_rx nat
  | EV_netif_rx "u8 list"
  | EV_encrypt nat u32 int
  | EV_udp_write

text \<open>The kernel's error numbers that the functions below return.\<close>

definition ENOENT :: int where "ENOENT = 2"
definition ENOMEM :: int where "ENOMEM = 12"
definition ENODEV :: int where "ENODEV = 19"
definition EINVAL :: int where "EINVAL = 22"
definition ENOLINK :: int where "ENOLINK = 67"
definition EINPROGRESS :: int where "EINPROGRESS = 115"

text \<open>
  What the receive path takes from outside \<open>ovpn.c\<close>: the codec helpers of \<open>proto.h\<close>
  (\<open>ovpn_opcode_is_data\<close>, \<open>ovpn_key_id_extract\<close>, \<open>ovpn_ip_header_probe\<close>), the return
  values of \<open>skb_linearize\<close> and \<open>ovpn_netlink_send_packet\<close>, the decrypt operation of a
  crypto context (its return value and the plaintext it leaves in the buffer), and the
  keepalive message.
\<close>

record rx_env =
  ovpn_opcode_is_data :: "u32 \<Rightarrow> bool"
  ovpn_key_id_extract :: "u32 \<Rightarrow> int"
  ovpn_ip_header_probe :: "u8 list \<Rightarrow> int"
  skb_linearize :: "u8 list \<Rightarrow> int"
  ovpn_netlink_send_packet :: "u8 list \<Rightarrow> int"
  decrypt :: "nat \<Rightarrow> u8 list \<Rightarrow> int \<Rightarrow> u32 \<Rightarrow> int \<times> u8 list"
  ovpn_keepalive_message :: "u8 list"

text \<open>
  Modelled from the spec: \<open>ovpn_is_keepalive\<close> is declared outside \<open>ovpn.c\<close>; the spec
  (4.4) has it as the exact match of the payload against the 16-byte keepalive message.
\<close>

definition ovpn_is_keepalive :: "rx_env \<Rightarrow> sk_buff \<Rightarrow> bool" where
  "ovpn_is_keepalive env skb = (data skb = ovpn_keepalive_message env)"

text \<open>
  Modelled from the spec: \<open>ovpn_crypto_context_from_state\<close> (\<open>crypto.h\<close>) returns the
  context of a key id, or none.
\<close>

definition ovpn_crypto_context_from_state :: "ovpn_peer \<Rightarrow> int \<Rightarrow> nat option" where
  "ovpn_crypto_context_from_state peer key_id = map_of (crypto_slots peer) key_id"

text \<open>
  The kernel's \<open>pskb_may_pull(skb, n)\<close>: whether the buffer holds \<open>n\<close> bytes that can be
  read at \<open>skb->data\<close>. The bytes of a buffer of this model are all in \<open>data\<close>, so it
  is a test of the length; the source uses it so, with \<open>n = 1\<close>, as its check for a
  null packet.
\<close>

definition pskb_may_pull :: "sk_buff \<Rightarrow> nat \<Rightarrow> bool" where
  "pskb_may_pull skb n = (n \<le> length (data skb))"

text \<open>
  \<open>tun_netdev_write\<close>; \<open>tun_drop\<close> is the code at its label \<open>drop\<close>. On the path to
  \<open>netif_rx\<close> the function only sets fields of the buffer.
\<close>

definition tun_drop :: "int \<Rightarrow> int \<times> event list" where
  "tun_drop ret = (ret, [if ret < 0 then EV_kfree_skb else EV_consume_skb])"

definition tun_netdev_write :: "rx_env \<Rightarrow> sk_buff \<Rightarrow> int \<times> event list" where
  "tun_netdev_write env skb =
     (let ev = [EV_peer_update_keepalive_expire,
                EV_peer_stats_increment_rx (cb_rx_stats_size skb)];
          ret = ovpn_ip_header_probe env (data skb)
      in if ret < 0 then
           (if \<not> pskb_may_pull skb 1 then
              (let (r, ev') = tun_drop (- EINVAL) in (r, ev @ ev'))
            else
              (let ret = (if ovpn_is_keepalive env skb then 0 else ret);
                   (r, ev') = tun_drop ret
               in (r, ev @ ev')))
         else (0, ev @ [EV_netif_rx (data skb)]))"

definition post_decrypt :: "rx_env \<Rightarrow> sk_buff \<Rightarrow> int \<Rightarrow> event list" where
  "post_decrypt env skb err =
     [EV_kfree_work] @
     (if err \<noteq> 0 then [EV_kfree_skb] else snd (tun_netdev_write env skb)) @
     [EV_crypto_context_put, EV_peer_put]"

definition ovpn_transport_to_userspace :: "rx_env \<Rightarrow> sk_buff \<Rightarrow> int \<times> event list" where
  "ovpn_transport_to_userspace env skb =
     (let ret = skb_linearize env (data skb) in
      if ret < 0 then (ret, [])
      else
        (let ret = ovpn_netlink_send_packet env (data skb) in
         if ret < 0 then (ret, [EV_netlink_send_packet (data skb)])
         else (0, [EV_netlink_send_packet (data skb), EV_consume_skb])))"

text \<open>\<open>ovpn_recv_crypto\<close>; \<open>recv_drop\<close> is the code at its label \<open>drop\<close>.\<close>

definition recv_drop :: "ovpn_peer option \<Rightarrow> event list" where
  "recv_drop peer = (if peer \<noteq> None then [EV_peer_put] else []) @ [EV_kfree_skb]"

definition ovpn_recv_crypto ::
  "rx_env \<Rightarrow> ovpn_peer option \<Rightarrow> u32 \<Rightarrow> sk_buff \<Rightarrow> event list"
where
  "ovpn_recv_crypto env peer op skb0 =
     (let skb = skb0\<lparr>cb_rx_stats_size := length (data skb0)\<rparr> in
      case peer of
        None \<Rightarrow>
          (let (ret, ev) = ovpn_transport_to_userspace env skb in
           if ret < 0 then ev @ recv_drop peer else ev)
      | Some p \<Rightarrow>
          if \<not> ovpn_opcode_is_data env op then
            (let (ret, ev) = ovpn_transport_to_userspace env skb in
             if ret < 0 then ev @ recv_drop peer else ev @ [EV_peer_put])
          else
            (let key_id = ovpn_key_id_extract env op in
             case ovpn_crypto_context_from_state p key_id of
               None \<Rightarrow> recv_drop peer
             | Some cc \<Rightarrow>
                 (let (ret, plain) = decrypt env cc (data skb) key_id op in
                  [EV_decrypt cc key_id op] @
                  (if ret \<noteq> - EINPROGRESS
                   then post_decrypt env (skb\<lparr>data := plain\<rparr>) ret
                   else []))))"

text \<open>\<open>ovpn_recv\<close> passes its arguments on.\<close>

definition ovpn_recv :: "rx_env \<Rightarrow> ovpn_peer option \<Rightarrow> u32 \<Rightarrow> sk_buff \<Rightarrow> event list" where
  "ovpn_recv env peer op skb = ovpn_recv_crypto env peer op skb"

definition is_decrypt :: "event \<Rightarrow> bool" where
  "is_decrypt e = (case e of EV_decrypt cc k op \<Rightarrow> True | _ \<Rightarrow> False)"

definition is_netif_rx :: "event \<Rightarrow> bool" where
  "is_netif_rx e = (case e of EV_netif_rx d \<Rightarrow> True | _ \<Rightarrow> False)"

text \<open>
  The transmit path takes from outside: \<open>ovpn_bind_udp_encap_overhead\<close> (\<open>bind.h\<close>),
  which returns an \<open>int\<close>, and the return value of the encrypt operation.
\<close>

record tx_env =
  ovpn_bind_udp_encap_overhead :: "nat \<Rightarrow> int \<Rightarrow> int"
  encrypt :: "nat \<Rightarrow> u8 list \<Rightarrow> u32 \<Rightarrow> int \<Rightarrow> int"

definition ETH_HLEN :: int where "ETH_HLEN = 14"

text \<open>
  Modelled from the spec: \<open>ovpn_crypto_context_primary\<close> (\<open>crypto.h\<close>) returns the
  context currently selected for transmission and its key id, or none.
\<close>

definition ovpn_crypto_context_primary :: "ovpn_peer \<Rightarrow> (nat \<times> int) option" where
  "ovpn_crypto_context_primary peer = crypto_primary peer"

text \<open>
  \<open>post_encrypt\<close>; the call of \<open>ovpn_udp_write\<close>, which sends the encrypted packet, is
  one event.
\<close>

definition post_encrypt :: "int \<Rightarrow> event list" where
  "post_encrypt err =
     [EV_kfree_work] @
     (if err \<noteq> 0 then [EV_kfree_skb] else [EV_udp_write]) @
     [EV_crypto_context_put, EV_peer_put]"

text \<open>
  \<open>do_ovpn_net_xmit\<close>. \<open>headroom\<close> is an \<open>unsigned int\<close>: the \<open>int\<close> that
  \<open>ovpn_bind_udp_encap_overhead\<close> returns is converted on assignment, and \<open>headroom < 0\<close>
  compares unsigned values. \<open>ret\<close> is still its initial \<open>-1\<close> at that test. The function
  also clears the scratch field \<open>pktid\<close> of the buffer before it encrypts; no function
  of the model reads that field.
\<close>

definition do_ovpn_net_xmit ::
  "tx_env \<Rightarrow> ovpn_peer option \<Rightarrow> sk_buff \<Rightarrow> bool \<Rightarrow> int \<times> event list"
where
  "do_ovpn_net_xmit env peer skb is_ip_packet =
     (case peer of
        None \<Rightarrow> (- ENOLINK, [])
      | Some p \<Rightarrow>
          (case bind p of
             None \<Rightarrow> (- ENOENT, [EV_peer_put])
           | Some b \<Rightarrow>
               (let headroom = (word_of_int (ovpn_bind_udp_encap_overhead env b ETH_HLEN) :: u32)
                in if headroom < 0 then (- 1, [EV_peer_put])
                   else
                     (case ovpn_crypto_context_primary p of
                        None \<Rightarrow> (- ENODEV, [EV_peer_put])
                      | Some (cc, key_id) \<Rightarrow>
                          (let ret = encrypt env cc (data skb) headroom key_id in
                           (0, [EV_encrypt cc headroom key_id] @
                               (if ret \<noteq> - EINPROGRESS then post_encrypt ret else [])))))))"

section \<open>Properties of the replay detector\<close>

subsection \<open>Word arithmetic and the stages of the detector\<close>

lemma unat_word_succ: "(w::u32) + 1 \<noteq> 0 \<Longrightarrow> unat (w + 1) = unat w + 1"
  using unatSuc [of w] by (simp add: add.commute)

lemma expire_floor_fields [simp]:
  "base (pktid_expire_floor pr now) = base pr"
  "extent (pktid_expire_floor pr now) = extent pr"
  "id_recv (pktid_expire_floor pr now) = id_recv pr"
  "time (pktid_expire_floor pr now) = time pr"
  "history (pktid_expire_floor pr now) = history pr"
  "expire (pktid_expire_floor pr now) = expire pr"
  "max_backtrack (pktid_expire_floor pr now) = max_backtrack pr"
  "id_floor (pktid_expire_floor pr now) =
     (if time_after_eq now (expire pr) then id_recv pr else id_floor pr)"
  by (simp_all add: pktid_expire_floor_def)

lemma pktid_accept_simps [simp]:
  "fst (pktid_accept texp now pr) = Inr ()"
  "snd (pktid_accept texp now pr) = pr\<lparr>expire := now + texp\<rparr>"
  by (simp_all add: pktid_accept_def)

lemma pktid_backtrack_far:
  "\<not> id_recv pr - pkt_id < extent pr \<Longrightarrow>
   fst (pktid_backtrack ord texp pr now pkt_id) = Inl OVPN_ERR_PKTID_ID_BACKTRACK"
  by (simp add: pktid_backtrack_def Let_def)

lemma pktid_backtrack_reject:
  assumes "fst (pktid_backtrack ord texp pr now pkt_id) = Inl e"
  shows "snd (pktid_backtrack ord texp pr now pkt_id) =
           pr\<lparr>max_backtrack :=
                 (if max_backtrack pr < id_recv pr - pkt_id then id_recv pr - pkt_id
                  else max_backtrack pr)\<rparr>"
  using assms by (simp add: pktid_backtrack_def Let_def split: if_splits)

lemma pktid_window_reject:
  assumes "fst (pktid_window ord texp pr now pkt_id) = Inl e"
  shows "snd (pktid_window ord texp pr now pkt_id) =
           pr\<lparr>max_backtrack :=
                 (if max_backtrack pr < id_recv pr - pkt_id then id_recv pr - pkt_id
                  else max_backtrack pr)\<rparr>"
proof -
  from assms have "pktid_window ord texp pr now pkt_id = pktid_backtrack ord texp pr now pkt_id"
    by (simp add: pktid_window_def split: if_splits)
  with assms show ?thesis
    by (simp add: pktid_backtrack_reject)
qed

lemma pktid_window_after_reset:
  assumes "pkt_id \<noteq> 0"
  shows "fst (pktid_window ord texp (pktid_time_reset pr t) now pkt_id) = Inr ()"
proof -
  have "id_recv (pktid_time_reset pr t) = 0"
    by (simp add: pktid_time_reset_def)
  moreover have "0 < pkt_id"
    using assms by (simp add: word_greater_zero_iff)
  ultimately show ?thesis
    by (simp add: pktid_window_def)
qed



lemma time_reset_expire_floor:
  "pktid_time_reset (pktid_expire_floor pr now) t = pktid_time_reset pr t"
  by (simp add: pktid_time_reset_def pktid_expire_floor_def)

lemma expire_floor_time_reset:
  "pktid_expire_floor (pktid_time_reset pr t) now = pktid_time_reset pr t"
  by (simp add: pktid_time_reset_def pktid_expire_floor_def)

lemma time_reset_fields [simp]:
  "base (pktid_time_reset pr t) = 0"
  "extent (pktid_time_reset pr t) = 0"
  "id_recv (pktid_time_reset pr t) = 0"
  "time (pktid_time_reset pr t) = t"
  "id_floor (pktid_time_reset pr t) = 0"
  "history (pktid_time_reset pr t) = history pr"
  "expire (pktid_time_reset pr t) = expire pr"
  "max_backtrack (pktid_time_reset pr t) = max_backtrack pr"
  by (simp_all add: pktid_time_reset_def)

lemma pktid_advance_fields [simp]:
  "id_recv (pktid_advance ord pr p) = p"
  "time (pktid_advance ord pr p) = time pr"
  "id_floor (pktid_advance ord pr p) = id_floor pr"
  "max_backtrack (pktid_advance ord pr p) = max_backtrack pr"
  "expire (pktid_advance ord pr p) = expire pr"
  "base (pktid_advance ord pr p) = REPLAY_INDEX ord (base pr) (- 1)"
  "extent (pktid_advance ord pr p) =
     (if extent pr < REPLAY_WINDOW_SIZE ord then extent pr + 1 else extent pr)"
  "history (pktid_advance ord pr p) =
     hist_set (history pr) (unat (REPLAY_INDEX ord (base pr) (- 1)))"
  by (simp_all add: pktid_advance_def Let_def)

lemma pktid_jump_fields [simp]:
  "id_recv (pktid_jump ord pr p) = p"
  "time (pktid_jump ord pr p) = time pr"
  "id_floor (pktid_jump ord pr p) = id_floor pr"
  "max_backtrack (pktid_jump ord pr p) = max_backtrack pr"
  "expire (pktid_jump ord pr p) = expire pr"
  by (simp_all add: pktid_jump_def Let_def)

lemma pktid_jump_extent:
  "extent (pktid_jump ord pr p) =
     (if p - id_recv pr < REPLAY_WINDOW_SIZE ord
      then (if REPLAY_WINDOW_SIZE ord < extent pr + (p - id_recv pr)
            then REPLAY_WINDOW_SIZE ord else extent pr + (p - id_recv pr))
      else REPLAY_WINDOW_SIZE ord)"
  by (simp add: pktid_jump_def Let_def)

lemma window_size_dvd: "8 dvd unat (REPLAY_WINDOW_SIZE ord)"
proof -
  have "unat (REPLAY_WINDOW_SIZE ord) = (REPLAY_WINDOW_BYTES ord * 8) mod 2 ^ LENGTH(32)"
    unfolding REPLAY_WINDOW_SIZE_def by (rule unat_of_nat)
  moreover have "(8::nat) dvd 2 ^ LENGTH(32)" by simp
  ultimately show ?thesis
    by (simp add: dvd_mod)
qed

lemma window_size_not_1: "REPLAY_WINDOW_SIZE ord = 0 \<or> 1 < REPLAY_WINDOW_SIZE ord"
proof (cases "unat (REPLAY_WINDOW_SIZE ord) = 0")
  case True
  then show ?thesis by (simp add: unat_eq_0)
next
  case False
  with window_size_dvd [of ord] have "1 < unat (REPLAY_WINDOW_SIZE ord)"
    by (auto simp add: dvd_def)
  then show ?thesis by (simp add: word_less_nat_alt)
qed


lemma time_after_eq_refl: "time_after_eq a a"
  by (simp add: time_after_eq_def)

lemma pktid_recv_seq_Cons:
  "fst (pktid_recv_seq ord texp pr ((now, p, t) # ps)) =
     fst (ovpn_pktid_recv_unlocked ord texp pr now p t) #
     fst (pktid_recv_seq ord texp (snd (ovpn_pktid_recv_unlocked ord texp pr now p t)) ps)"
  "snd (pktid_recv_seq ord texp pr ((now, p, t) # ps)) =
     snd (pktid_recv_seq ord texp (snd (ovpn_pktid_recv_unlocked ord texp pr now p t)) ps)"
  by (simp_all add: split_def Let_def)

lemma recv_reject_state:
  assumes "fst (ovpn_pktid_recv_unlocked ord texp pr now pkt_id pkt_time) = Inl e"
  shows "snd (ovpn_pktid_recv_unlocked ord texp pr now pkt_id pkt_time) = pktid_expire_floor pr now
       \<or> snd (ovpn_pktid_recv_unlocked ord texp pr now pkt_id pkt_time) =
           (pktid_expire_floor pr now)\<lparr>max_backtrack :=
              (if max_backtrack pr < id_recv pr - pkt_id then id_recv pr - pkt_id
               else max_backtrack pr)\<rparr>"
proof (cases "pkt_id = 0")
  case True
  then show ?thesis by (simp add: ovpn_pktid_recv_unlocked_def Let_def)
next
  case nz: False
  show ?thesis
  proof (cases "pkt_time = time pr")
    case True
    with nz have run: "ovpn_pktid_recv_unlocked ord texp pr now pkt_id pkt_time =
        pktid_window ord texp (pktid_expire_floor pr now) now pkt_id"
      by (simp add: ovpn_pktid_recv_unlocked_def Let_def)
    from assms pktid_window_reject [of ord texp "pktid_expire_floor pr now" now pkt_id e]
    show ?thesis unfolding run by simp
  next
    case ne: False
    show ?thesis
    proof (cases "time pr < pkt_time")
      case True
      with nz ne assms pktid_window_after_reset [of pkt_id ord texp "pktid_expire_floor pr now" pkt_time now]
      show ?thesis
        by (simp add: ovpn_pktid_recv_unlocked_def Let_def)
    next
      case False
      with nz ne show ?thesis
        by (simp add: ovpn_pktid_recv_unlocked_def Let_def)
    qed
  qed
qed


subsection \<open>Rejection beyond the window\<close>

text \<open>
  Claim C2. A packet id with \<open>pkt_id < id - W + 1\<close>, presented at the current epoch
  and different from 0, is rejected with \<open>OVPN_ERR_PKTID_ID_BACKTRACK\<close>, whatever the
  bitmap, the floor and the expiry deadline are. The state is any state whose extent is
  at most \<open>W\<close>, which the detector maintains.
\<close>

theorem replay_out_of_window_reject:
  assumes "extent pr \<le> REPLAY_WINDOW_SIZE ord" and "pkt_id \<noteq> 0" and "pkt_time = time pr"
    and "int (unat pkt_id) < int (unat (id_recv pr)) - int (unat (REPLAY_WINDOW_SIZE ord)) + 1"
  shows "fst (ovpn_pktid_recv_unlocked ord texp pr now pkt_id pkt_time)
           = Inl OVPN_ERR_PKTID_ID_BACKTRACK"
proof -
  let ?pr = "pktid_expire_floor pr now"
  from assms(4) have lt: "unat pkt_id \<le> unat (id_recv pr)"
    by linarith
  from assms(4) have far: "unat (REPLAY_WINDOW_SIZE ord) \<le> unat (id_recv pr) - unat pkt_id"
    by linarith
  from lt have le: "pkt_id \<le> id_recv pr"
    by (simp add: word_le_nat_alt)
  have delta: "unat (id_recv pr - pkt_id) = unat (id_recv pr) - unat pkt_id"
    using le by (simp add: unat_sub)
  have no_next: "pkt_id \<noteq> id_recv pr + 1"
  proof
    assume eq: "pkt_id = id_recv pr + 1"
    with assms(2) have "unat (id_recv pr + 1) = unat (id_recv pr) + 1"
      by (simp add: unat_word_succ)
    with eq lt show False by simp
  qed
  have no_fwd: "\<not> id_recv pr < pkt_id"
    using le by (simp add: word_less_nat_alt word_le_nat_alt)
  have "\<not> id_recv pr - pkt_id < extent pr"
    using far delta assms(1) by (simp add: word_less_nat_alt word_le_nat_alt)
  then have "fst (pktid_backtrack ord texp ?pr now pkt_id) = Inl OVPN_ERR_PKTID_ID_BACKTRACK"
    by (intro pktid_backtrack_far) simp
  then have "fst (pktid_window ord texp ?pr now pkt_id) = Inl OVPN_ERR_PKTID_ID_BACKTRACK"
    using no_next no_fwd by (simp add: pktid_window_def)
  then show ?thesis
    using assms(2,3) by (simp add: ovpn_pktid_recv_unlocked_def Let_def)
qed


theorem replay_out_of_window_reject_witness:
  "extent \<lparr>history = [1, 0, 0, 0, 0, 0, 0, 0], base = 0, extent = 64, expire = 30,
            id_recv = 200, time = 1000, id_floor = 0, max_backtrack = 0\<rparr>
     \<le> REPLAY_WINDOW_SIZE 3 \<and>
   (100 :: u32) \<noteq> 0 \<and>
   int (unat (100 :: u32)) < int (unat (200 :: u32)) - int (unat (REPLAY_WINDOW_SIZE 3)) + 1 \<and>
   fst (ovpn_pktid_recv_unlocked 3 30
          \<lparr>history = [1, 0, 0, 0, 0, 0, 0, 0], base = 0, extent = 64, expire = 30,
            id_recv = 200, time = 1000, id_floor = 0, max_backtrack = 0\<rparr> 31 100 1000)
     = Inl OVPN_ERR_PKTID_ID_BACKTRACK"
proof -
  let ?pr = "\<lparr>history = [1, 0, 0, 0, 0, 0, 0, 0], base = 0, extent = 64, expire = 30,
              id_recv = 200, time = 1000, id_floor = 0, max_backtrack = 0\<rparr> :: ovpn_pktid_recv"
  have w: "REPLAY_WINDOW_SIZE 3 = 64"
    by (simp add: REPLAY_WINDOW_SIZE_def REPLAY_WINDOW_BYTES_def)
  have h1: "extent ?pr \<le> REPLAY_WINDOW_SIZE 3" by (simp add: w)
  have h2: "(100 :: u32) \<noteq> 0" by simp
  have h3: "(1000 :: u32) = time ?pr" by simp
  have h4: "int (unat (100 :: u32)) < int (unat (id_recv ?pr)) - int (unat (REPLAY_WINDOW_SIZE 3)) + 1"
    by (simp add: w)
  from replay_out_of_window_reject [OF h1 h2 h3 h4, of 30 31] h1 h2 h4 show ?thesis by simp
qed


subsection \<open>Change of epoch\<close>

text \<open>
  Claim C3. A packet with \<open>pkt_id \<ge> 1\<close> and an epoch greater than the stored one is
  processed as on the reset window (\<open>base = 0\<close>, \<open>extent = 0\<close>, \<open>id = 0\<close>,
  \<open>id_floor = 0\<close>, epoch set to the packet's) and is accepted; afterwards the window
  holds the packet's epoch and id. A packet with a smaller epoch is rejected with
  \<open>OVPN_ERR_PKTID_TIME_BACKTRACK\<close> and the window is not reset: the state is the one
  before the call, up to the floor that the expiry check at the entry may have raised.
\<close>

theorem epoch_reset:
  assumes "pkt_id \<noteq> 0"
  shows "(time pr < pkt_time \<longrightarrow>
            ovpn_pktid_recv_unlocked ord texp pr now pkt_id pkt_time =
              ovpn_pktid_recv_unlocked ord texp
                (pr\<lparr>base := 0, extent := 0, id_recv := 0, time := pkt_time, id_floor := 0\<rparr>)
                now pkt_id pkt_time \<and>
            fst (ovpn_pktid_recv_unlocked ord texp pr now pkt_id pkt_time) = Inr () \<and>
            time (snd (ovpn_pktid_recv_unlocked ord texp pr now pkt_id pkt_time)) = pkt_time \<and>
            id_recv (snd (ovpn_pktid_recv_unlocked ord texp pr now pkt_id pkt_time)) = pkt_id \<and>
            id_floor (snd (ovpn_pktid_recv_unlocked ord texp pr now pkt_id pkt_time)) = 0 \<and>
            extent (snd (ovpn_pktid_recv_unlocked ord texp pr now pkt_id pkt_time)) =
              (if pkt_id < REPLAY_WINDOW_SIZE ord then pkt_id else REPLAY_WINDOW_SIZE ord)) \<and>
         (pkt_time < time pr \<longrightarrow>
            fst (ovpn_pktid_recv_unlocked ord texp pr now pkt_id pkt_time) =
              Inl OVPN_ERR_PKTID_TIME_BACKTRACK \<and>
            snd (ovpn_pktid_recv_unlocked ord texp pr now pkt_id pkt_time) =
              pr\<lparr>id_floor := (if time_after_eq now (expire pr) then id_recv pr
                                else id_floor pr)\<rparr>)"
proof (intro conjI impI)
  let ?r = "pktid_time_reset pr pkt_time"
  assume fwd: "time pr < pkt_time"
  then have ne: "pkt_time \<noteq> time pr" by auto
  have run: "ovpn_pktid_recv_unlocked ord texp pr now pkt_id pkt_time =
               pktid_window ord texp ?r now pkt_id"
    using assms fwd ne
    by (simp add: ovpn_pktid_recv_unlocked_def Let_def time_reset_expire_floor)
  have reset: "pr\<lparr>base := 0, extent := 0, id_recv := 0, time := pkt_time, id_floor := 0\<rparr> = ?r"
    by (simp add: pktid_time_reset_def)
  have "ovpn_pktid_recv_unlocked ord texp ?r now pkt_id pkt_time =
          pktid_window ord texp ?r now pkt_id"
    using assms by (simp add: ovpn_pktid_recv_unlocked_def Let_def expire_floor_time_reset)
  then show "ovpn_pktid_recv_unlocked ord texp pr now pkt_id pkt_time =
          ovpn_pktid_recv_unlocked ord texp
            (pr\<lparr>base := 0, extent := 0, id_recv := 0, time := pkt_time, id_floor := 0\<rparr>)
            now pkt_id pkt_time"
    unfolding reset run by simp
  show "fst (ovpn_pktid_recv_unlocked ord texp pr now pkt_id pkt_time) = Inr ()"
    using assms run by (simp add: pktid_window_after_reset)
  have pos: "0 < pkt_id"
    using assms by (simp add: word_greater_zero_iff)
  show "time (snd (ovpn_pktid_recv_unlocked ord texp pr now pkt_id pkt_time)) = pkt_time"
    using pos by (simp add: run pktid_window_def)
  show "id_recv (snd (ovpn_pktid_recv_unlocked ord texp pr now pkt_id pkt_time)) = pkt_id"
    using pos by (simp add: run pktid_window_def)
  show "id_floor (snd (ovpn_pktid_recv_unlocked ord texp pr now pkt_id pkt_time)) = 0"
    using pos by (simp add: run pktid_window_def)
  show "extent (snd (ovpn_pktid_recv_unlocked ord texp pr now pkt_id pkt_time)) =
          (if pkt_id < REPLAY_WINDOW_SIZE ord then pkt_id else REPLAY_WINDOW_SIZE ord)"
  proof (cases "pkt_id = 1")
    case True
    have "extent (snd (ovpn_pktid_recv_unlocked ord texp pr now pkt_id pkt_time)) =
            (if 0 < REPLAY_WINDOW_SIZE ord then 1 else 0)"
      unfolding run using True by (simp add: pktid_window_def)
    with window_size_not_1 [of ord] show ?thesis
      unfolding True by (auto simp add: word_greater_zero_iff)
  next
    case False
    then show ?thesis
      using pos by (auto simp add: run pktid_window_def pktid_jump_extent)
  qed
next
  assume older: "pkt_time < time pr"
  then have ne: "pkt_time \<noteq> time pr" and nfwd: "\<not> time pr < pkt_time"
    by auto
  show "fst (ovpn_pktid_recv_unlocked ord texp pr now pkt_id pkt_time) =
          Inl OVPN_ERR_PKTID_TIME_BACKTRACK"
    using assms ne nfwd by (simp add: ovpn_pktid_recv_unlocked_def Let_def)
  show "snd (ovpn_pktid_recv_unlocked ord texp pr now pkt_id pkt_time) =
          pr\<lparr>id_floor := (if time_after_eq now (expire pr) then id_recv pr else id_floor pr)\<rparr>"
    using assms ne nfwd
    by (simp add: ovpn_pktid_recv_unlocked_def Let_def pktid_expire_floor_def)
qed

theorem epoch_reset_witness:
  "(1 :: u32) \<noteq> 0 \<and>
   fst (ovpn_pktid_recv_unlocked 3 30
          \<lparr>history = [1, 0, 0, 0, 0, 0, 0, 0], base = 0, extent = 64, expire = 30,
            id_recv = 500, time = 1000, id_floor = 0, max_backtrack = 0\<rparr> 31 1 1001) = Inr () \<and>
   time (snd (ovpn_pktid_recv_unlocked 3 30
          \<lparr>history = [1, 0, 0, 0, 0, 0, 0, 0], base = 0, extent = 64, expire = 30,
            id_recv = 500, time = 1000, id_floor = 0, max_backtrack = 0\<rparr> 31 1 1001)) = 1001 \<and>
   id_recv (snd (ovpn_pktid_recv_unlocked 3 30
          \<lparr>history = [1, 0, 0, 0, 0, 0, 0, 0], base = 0, extent = 64, expire = 30,
            id_recv = 500, time = 1000, id_floor = 0, max_backtrack = 0\<rparr> 31 1 1001)) = 1 \<and>
   extent (snd (ovpn_pktid_recv_unlocked 3 30
          \<lparr>history = [1, 0, 0, 0, 0, 0, 0, 0], base = 0, extent = 64, expire = 30,
            id_recv = 500, time = 1000, id_floor = 0, max_backtrack = 0\<rparr> 31 1 1001)) = 1 \<and>
   fst (ovpn_pktid_recv_unlocked 3 30
          \<lparr>history = [1, 0, 0, 0, 0, 0, 0, 0], base = 0, extent = 64, expire = 30,
            id_recv = 500, time = 1000, id_floor = 0, max_backtrack = 0\<rparr> 31 1 999)
     = Inl OVPN_ERR_PKTID_TIME_BACKTRACK \<and>
   snd (ovpn_pktid_recv_unlocked 3 30
          \<lparr>history = [1, 0, 0, 0, 0, 0, 0, 0], base = 0, extent = 64, expire = 30,
            id_recv = 500, time = 1000, id_floor = 0, max_backtrack = 0\<rparr> 31 1 999)
     = \<lparr>history = [1, 0, 0, 0, 0, 0, 0, 0], base = 0, extent = 64, expire = 30,
            id_recv = 500, time = 1000, id_floor = 500, max_backtrack = 0\<rparr>"
proof -
  let ?pr = "\<lparr>history = [1, 0, 0, 0, 0, 0, 0, 0], base = 0, extent = 64, expire = 30,
              id_recv = 500, time = 1000, id_floor = 0, max_backtrack = 0\<rparr> :: ovpn_pktid_recv"
  have nz: "(1 :: u32) \<noteq> 0" by simp
  have w: "REPLAY_WINDOW_SIZE 3 = 64"
    by (simp add: REPLAY_WINDOW_SIZE_def REPLAY_WINDOW_BYTES_def)
  have ex: "time_after_eq 31 30"
    by (simp add: time_after_eq_def word_sle_eq)
  have fwd: "time ?pr < 1001" and bwd: "999 < time ?pr"
    by simp_all
  note reset = epoch_reset [OF nz, of ?pr 1001 3 30 31, THEN conjunct1, THEN mp, OF fwd, THEN conjunct2]
  note reject = epoch_reset [OF nz, of ?pr 999 3 30 31, THEN conjunct2, THEN mp, OF bwd]
  from reset reject nz show ?thesis
    by (simp add: w ex)
qed

subsection \<open>What a rejection leaves behind\<close>

text \<open>
  Claim C9. When the detector rejects a packet, \<open>base\<close>, \<open>extent\<close>, \<open>id\<close>,
  \<open>history\<close>, the epoch and \<open>expire\<close> are as before the call. The floor is raised to
  the top id exactly when the expiry deadline has passed, and \<open>max_backtrack\<close> can only
  grow, to the backtrack delta of the rejected id. Both changes occur on rejections in
  states that the detector reaches from its initial state.
\<close>

theorem reject_frame:
  "(fst (ovpn_pktid_recv_unlocked ord texp pr now pkt_id pkt_time) = Inl e \<longrightarrow>
      base (snd (ovpn_pktid_recv_unlocked ord texp pr now pkt_id pkt_time)) = base pr \<and>
      extent (snd (ovpn_pktid_recv_unlocked ord texp pr now pkt_id pkt_time)) = extent pr \<and>
      id_recv (snd (ovpn_pktid_recv_unlocked ord texp pr now pkt_id pkt_time)) = id_recv pr \<and>
      history (snd (ovpn_pktid_recv_unlocked ord texp pr now pkt_id pkt_time)) = history pr \<and>
      time (snd (ovpn_pktid_recv_unlocked ord texp pr now pkt_id pkt_time)) = time pr \<and>
      expire (snd (ovpn_pktid_recv_unlocked ord texp pr now pkt_id pkt_time)) = expire pr \<and>
      id_floor (snd (ovpn_pktid_recv_unlocked ord texp pr now pkt_id pkt_time)) =
        (if time_after_eq now (expire pr) then id_recv pr else id_floor pr) \<and>
      max_backtrack pr \<le> max_backtrack (snd (ovpn_pktid_recv_unlocked ord texp pr now pkt_id pkt_time)) \<and>
      (max_backtrack pr < max_backtrack (snd (ovpn_pktid_recv_unlocked ord texp pr now pkt_id pkt_time)) \<longrightarrow>
         max_backtrack (snd (ovpn_pktid_recv_unlocked ord texp pr now pkt_id pkt_time)) =
           id_recv pr - pkt_id)) \<and>
   (\<exists>ps now' p t e'.
      fst (ovpn_pktid_recv_unlocked ord texp
             (snd (pktid_recv_seq ord texp (ovpn_pktid_recv_init ord) ps)) now' p t) = Inl e' \<and>
      id_floor (snd (ovpn_pktid_recv_unlocked ord texp
             (snd (pktid_recv_seq ord texp (ovpn_pktid_recv_init ord) ps)) now' p t)) \<noteq>
      id_floor (snd (pktid_recv_seq ord texp (ovpn_pktid_recv_init ord) ps))) \<and>
   (\<exists>ps now' p t e'.
      fst (ovpn_pktid_recv_unlocked ord texp
             (snd (pktid_recv_seq ord texp (ovpn_pktid_recv_init ord) ps)) now' p t) = Inl e' \<and>
      max_backtrack (snd (pktid_recv_seq ord texp (ovpn_pktid_recv_init ord) ps)) <
      max_backtrack (snd (ovpn_pktid_recv_unlocked ord texp
             (snd (pktid_recv_seq ord texp (ovpn_pktid_recv_init ord) ps)) now' p t)))"
proof (intro conjI impI)
  let ?r = "ovpn_pktid_recv_unlocked ord texp pr now pkt_id pkt_time"
  assume rej: "fst ?r = Inl e"
  from recv_reject_state [OF rej]
  show "base (snd ?r) = base pr" "extent (snd ?r) = extent pr" "id_recv (snd ?r) = id_recv pr"
    "history (snd ?r) = history pr" "time (snd ?r) = time pr" "expire (snd ?r) = expire pr"
    "id_floor (snd ?r) = (if time_after_eq now (expire pr) then id_recv pr else id_floor pr)"
    by auto
  from recv_reject_state [OF rej]
  show "max_backtrack pr \<le> max_backtrack (snd ?r)"
    by auto
  assume "max_backtrack pr < max_backtrack (snd ?r)"
  with recv_reject_state [OF rej]
  show "max_backtrack (snd ?r) = id_recv pr - pkt_id"
    by (auto split: if_splits)
next
  let ?ps = "[(0, 1, 0)] :: (ulong \<times> u32 \<times> u32) list"
  let ?pr = "snd (pktid_recv_seq ord texp (ovpn_pktid_recv_init ord) ?ps)"
  have pr: "?pr = snd (ovpn_pktid_recv_unlocked ord texp (ovpn_pktid_recv_init ord) 0 1 0)"
    by (simp add: pktid_recv_seq_Cons del: pktid_recv_seq.simps(2))
  have st: "id_recv ?pr = 1" "id_floor ?pr = 0" "expire ?pr = texp"
    unfolding pr
    by (simp_all add: ovpn_pktid_recv_unlocked_def Let_def pktid_window_def
          ovpn_pktid_recv_init_def pktid_expire_floor_def)
  have "fst (ovpn_pktid_recv_unlocked ord texp ?pr texp 0 0) = Inl OVPN_ERR_PKTID_ID_ZERO"
    by (simp add: ovpn_pktid_recv_unlocked_def Let_def)
  moreover have "id_floor (snd (ovpn_pktid_recv_unlocked ord texp ?pr texp 0 0)) = 1"
    using st by (simp add: ovpn_pktid_recv_unlocked_def Let_def time_after_eq_refl)
  ultimately show "\<exists>ps now' p t e'.
      fst (ovpn_pktid_recv_unlocked ord texp
             (snd (pktid_recv_seq ord texp (ovpn_pktid_recv_init ord) ps)) now' p t) = Inl e' \<and>
      id_floor (snd (ovpn_pktid_recv_unlocked ord texp
             (snd (pktid_recv_seq ord texp (ovpn_pktid_recv_init ord) ps)) now' p t)) \<noteq>
      id_floor (snd (pktid_recv_seq ord texp (ovpn_pktid_recv_init ord) ps))"
    using st(2) by (intro exI [of _ ?ps] exI [of _ texp] exI [of _ 0]
      exI [of _ OVPN_ERR_PKTID_ID_ZERO]) simp
next
  let ?ps = "[(0, 1, 0), (0, 2, 0)] :: (ulong \<times> u32 \<times> u32) list"
  let ?pr1 = "snd (ovpn_pktid_recv_unlocked ord texp (ovpn_pktid_recv_init ord) 0 1 0)"
  let ?pr = "snd (pktid_recv_seq ord texp (ovpn_pktid_recv_init ord) ?ps)"
  have pr: "?pr = snd (ovpn_pktid_recv_unlocked ord texp ?pr1 0 2 0)"
    by (simp add: pktid_recv_seq_Cons del: pktid_recv_seq.simps(2))
  have st1: "id_recv ?pr1 = 1" "time ?pr1 = 0" "max_backtrack ?pr1 = 0"
    by (simp_all add: ovpn_pktid_recv_unlocked_def Let_def pktid_window_def
          ovpn_pktid_recv_init_def pktid_expire_floor_def)
  have st: "id_recv ?pr = 2" "time ?pr = 0" "max_backtrack ?pr = 0" "expire ?pr = texp"
    unfolding pr using st1
    by (simp_all add: ovpn_pktid_recv_unlocked_def Let_def pktid_window_def)
  let ?r = "ovpn_pktid_recv_unlocked ord texp ?pr texp 1 0"
  have run: "?r = pktid_backtrack ord texp (pktid_expire_floor ?pr texp) texp 1"
    using st by (simp add: ovpn_pktid_recv_unlocked_def Let_def pktid_window_def)
  have fl: "id_floor (pktid_expire_floor ?pr texp) = 2"
    using st by (simp add: time_after_eq_refl)
  have "\<exists>e'. fst ?r = Inl e'"
    unfolding run using fl st
    by (simp add: pktid_backtrack_def Let_def)
  moreover have "max_backtrack (snd ?r) = 1"
    unfolding run using fl st
    by (simp add: pktid_backtrack_def Let_def)
  ultimately show "\<exists>ps now' p t e'.
      fst (ovpn_pktid_recv_unlocked ord texp
             (snd (pktid_recv_seq ord texp (ovpn_pktid_recv_init ord) ps)) now' p t) = Inl e' \<and>
      max_backtrack (snd (pktid_recv_seq ord texp (ovpn_pktid_recv_init ord) ps)) <
      max_backtrack (snd (ovpn_pktid_recv_unlocked ord texp
             (snd (pktid_recv_seq ord texp (ovpn_pktid_recv_init ord) ps)) now' p t))"
    using st(3) by (intro exI [of _ ?ps] exI [of _ texp] exI [of _ 1] exI [of _ 0]) auto
qed


theorem reject_frame_witness:
  "fst (ovpn_pktid_recv_unlocked 3 30
          \<lparr>history = [0, 0, 0, 0, 0, 0, 0, 248], base = 59, extent = 5, expire = 34,
            id_recv = 5, time = 1000, id_floor = 0, max_backtrack = 1\<rparr> 35 2 1000)
     = Inl OVPN_ERR_PKTID_EXPIRE \<and>
   snd (ovpn_pktid_recv_unlocked 3 30
          \<lparr>history = [0, 0, 0, 0, 0, 0, 0, 248], base = 59, extent = 5, expire = 34,
            id_recv = 5, time = 1000, id_floor = 0, max_backtrack = 1\<rparr> 35 2 1000)
     = \<lparr>history = [0, 0, 0, 0, 0, 0, 0, 248], base = 59, extent = 5, expire = 34,
         id_recv = 5, time = 1000, id_floor = 5, max_backtrack = 3\<rparr>"
proof -
  let ?pr = "\<lparr>history = [0, 0, 0, 0, 0, 0, 0, 248], base = 59, extent = 5, expire = 34,
              id_recv = 5, time = 1000, id_floor = 0, max_backtrack = 1\<rparr> :: ovpn_pktid_recv"
  let ?r = "ovpn_pktid_recv_unlocked 3 30 ?pr 35 2 1000"
  have rej: "fst ?r = Inl OVPN_ERR_PKTID_EXPIRE"
    by code_simp
  have mb: "max_backtrack (snd ?r) = 3"
    by code_simp
  have ex: "time_after_eq 35 34"
    by (simp add: time_after_eq_def word_sle_eq)
  note frame = reject_frame [of 3 30 ?pr 35 2 1000 OVPN_ERR_PKTID_EXPIRE,
      THEN conjunct1, THEN mp, OF rej]
  have "snd ?r = \<lparr>history = history (snd ?r), base = base (snd ?r), extent = extent (snd ?r),
      expire = expire (snd ?r), id_recv = id_recv (snd ?r), time = time (snd ?r),
      id_floor = id_floor (snd ?r), max_backtrack = max_backtrack (snd ?r)\<rparr>"
    by simp
  also have "\<dots> = \<lparr>history = [0, 0, 0, 0, 0, 0, 0, 248], base = 59, extent = 5, expire = 34,
      id_recv = 5, time = 1000, id_floor = 5, max_backtrack = 3\<rparr>"
    using frame mb ex by simp
  finally show ?thesis
    using rej by simp
qed

section \<open>The bitmap and the ring of indices\<close>

lemma byte_test_bit: "((x :: u8) AND push_bit n 1 \<noteq> 0) = bit x n"
  by (simp add: bit_iff_and_push_bit_not_eq_0)

lemma hist_test_bit: "hist_test h i = bit (h ! (i div 8)) (i mod 8)"
  unfolding hist_test_def by (rule byte_test_bit)

lemma length_hist_set [simp]: "length (hist_set h i) = length h"
  by (simp add: hist_set_def)

lemma length_hist_clear [simp]: "length (hist_clear h i) = length h"
  by (simp add: hist_clear_def)

lemma div_mod_8_eq: "(i::nat) div 8 = j div 8 \<Longrightarrow> i mod 8 = j mod 8 \<Longrightarrow> i = j"
  by (metis div_mult_mod_eq)

lemma hist_test_set:
  assumes "i < 8 * length h"
  shows "hist_test (hist_set h i) j = (j = i \<or> hist_test h j)"
proof (cases "j div 8 = i div 8")
  case True
  from assms have "i div 8 < length h" by simp
  with True have "hist_test (hist_set h i) j =
      bit ((h ! (i div 8)) OR push_bit (i mod 8) 1) (j mod 8)"
    by (simp add: hist_test_bit hist_set_def)
  also have "\<dots> = (j mod 8 = i mod 8 \<or> bit (h ! (i div 8)) (j mod 8))"
    by (auto simp add: bit_simps)
  also have "\<dots> = (j = i \<or> hist_test h j)"
    using True by (auto simp add: hist_test_bit dest: div_mod_8_eq)
  finally show ?thesis .
next
  case False
  then have "j \<noteq> i" by auto
  with False show ?thesis
    by (simp add: hist_test_bit hist_set_def)
qed

lemma hist_test_clear:
  assumes "i < 8 * length h"
  shows "hist_test (hist_clear h i) j = (j \<noteq> i \<and> hist_test h j)"
proof (cases "j div 8 = i div 8")
  case True
  from assms have "i div 8 < length h" by simp
  with True have "hist_test (hist_clear h i) j =
      bit ((h ! (i div 8)) AND NOT (push_bit (i mod 8) 1)) (j mod 8)"
    by (simp add: hist_test_bit hist_clear_def)
  also have "\<dots> = (j mod 8 \<noteq> i mod 8 \<and> bit (h ! (i div 8)) (j mod 8))"
    by (auto simp add: bit_simps)
  also have "\<dots> = (j \<noteq> i \<and> hist_test h j)"
    using True by (auto simp add: hist_test_bit dest: div_mod_8_eq)
  finally show ?thesis .
next
  case False
  then have "j \<noteq> i" by auto
  with False show ?thesis
    by (simp add: hist_test_bit hist_clear_def)
qed

lemma hist_test_fresh:
  assumes "0 < n" and "j < 8 * n"
  shows "hist_test ((replicate n (0 :: u8))[0 := 1]) j = (j = 0)"
proof (cases "j div 8 = 0")
  case True
  then have "j < 8" by simp
  with assms True show ?thesis
    by (auto simp add: hist_test_bit bit_simps)
next
  case False
  then have "j \<noteq> 0" by auto
  moreover from assms have "j div 8 < n" by simp
  ultimately show ?thesis
    using False by (simp add: hist_test_bit)
qed

text \<open>
  The window size is a power of two, and the ring index is the mask
  \<open>(base + i) & (REPLAY_WINDOW_SIZE - 1)\<close>.
\<close>

lemma REPLAY_WINDOW_SIZE_power: "REPLAY_WINDOW_SIZE ord = 2 ^ (ord + 3)"
  by (simp add: REPLAY_WINDOW_SIZE_def REPLAY_WINDOW_BYTES_def power_add mult.commute)

lemma REPLAY_INDEX_mask:
  "REPLAY_INDEX ord b i = (b + i) AND (REPLAY_WINDOW_SIZE ord - 1)"
proof -
  have "(b + i) mod 2 ^ (ord + 3) = take_bit (ord + 3) (b + i)"
    by (simp add: take_bit_eq_mod)
  also have "\<dots> = (b + i) AND mask (ord + 3)"
    by (simp add: take_bit_eq_mask)
  also have "mask (ord + 3) = (2 ^ (ord + 3) - 1 :: u32)"
    by (simp add: mask_eq_exp_minus_1)
  finally show ?thesis
    by (simp only: REPLAY_INDEX_def REPLAY_WINDOW_SIZE_power)
qed

lemma unat_REPLAY_WINDOW_SIZE:
  assumes "ord \<le> 28"
  shows "unat (REPLAY_WINDOW_SIZE ord) = 8 * 2 ^ ord"
proof -
  from assms have "(2::nat) ^ ord \<le> 2 ^ 28" by (intro power_increasing) simp_all
  then have "(2::nat) ^ ord * 8 < 2 ^ LENGTH(32)" by simp
  then have "unat (of_nat (2 ^ ord * 8) :: u32) = 2 ^ ord * 8"
    by (simp only: unat_of_nat mod_less)
  then show ?thesis
    by (simp only: REPLAY_WINDOW_SIZE_def REPLAY_WINDOW_BYTES_def mult.commute)
qed

lemma window_dvd_word:
  assumes "ord \<le> 28"
  shows "(8 * 2 ^ ord :: nat) dvd 2 ^ 32"
proof -
  have "(8 * 2 ^ ord :: nat) = 2 ^ (ord + 3)" by (simp add: power_add)
  moreover from assms have "(2::nat) ^ (ord + 3) dvd 2 ^ 32"
    by (intro le_imp_power_dvd) simp
  ultimately show ?thesis by simp
qed

lemma unat_REPLAY_INDEX:
  assumes "ord \<le> 28"
  shows "unat (REPLAY_INDEX ord b i) = (unat b + unat i) mod (8 * 2 ^ ord)"
proof -
  have "unat (REPLAY_INDEX ord b i) = unat (b + i) mod unat (REPLAY_WINDOW_SIZE ord)"
    unfolding REPLAY_INDEX_def by (rule unat_mod)
  also have "\<dots> = (unat b + unat i) mod 2 ^ 32 mod (8 * 2 ^ ord)"
    by (simp add: unat_REPLAY_WINDOW_SIZE [OF assms] unat_word_ariths)
  also have "\<dots> = (unat b + unat i) mod (8 * 2 ^ ord)"
    by (rule mod_mod_cancel [OF window_dvd_word [OF assms]])
  finally show ?thesis .
qed

lemma REPLAY_INDEX_less:
  assumes "ord \<le> 28"
  shows "unat (REPLAY_INDEX ord b i) < 8 * 2 ^ ord"
  unfolding unat_REPLAY_INDEX [OF assms] by (rule mod_less_divisor) simp

lemma mod_word_window:
  assumes "ord \<le> 28"
  shows "(a + s mod 2 ^ 32) mod (8 * 2 ^ ord) = (a + s) mod (8 * 2 ^ ord :: nat)"
proof -
  have "(a + s mod 2 ^ 32) mod (8 * 2 ^ ord) =
        (a mod (8 * 2 ^ ord) + s mod 2 ^ 32 mod (8 * 2 ^ ord)) mod (8 * 2 ^ ord)"
    by (simp only: mod_add_eq)
  also have "s mod 2 ^ 32 mod (8 * 2 ^ ord) = s mod (8 * 2 ^ ord)"
    by (rule mod_mod_cancel [OF window_dvd_word [OF assms]])
  finally show ?thesis
    by (simp only: mod_add_eq)
qed

lemma REPLAY_INDEX_add:
  assumes "ord \<le> 28"
  shows "REPLAY_INDEX ord (REPLAY_INDEX ord b x) y = REPLAY_INDEX ord b (x + y)"
proof -
  have "unat (REPLAY_INDEX ord (REPLAY_INDEX ord b x) y) =
        ((unat b + unat x) mod (8 * 2 ^ ord) + unat y) mod (8 * 2 ^ ord)"
    by (simp only: unat_REPLAY_INDEX [OF assms])
  also have "\<dots> = (unat b + unat x + unat y) mod (8 * 2 ^ ord)"
    by (simp only: mod_add_left_eq)
  also have "\<dots> = (unat b + (unat x + unat y)) mod (8 * 2 ^ ord)"
    by (simp only: add.assoc)
  also have "\<dots> = (unat b + (unat x + unat y) mod 2 ^ 32) mod (8 * 2 ^ ord)"
    by (simp only: mod_word_window [OF assms])
  also have "\<dots> = unat (REPLAY_INDEX ord b (x + y))"
    by (simp add: unat_REPLAY_INDEX [OF assms] unat_word_ariths)
  finally show ?thesis
    by (simp only: word_unat_eq_iff)
qed

lemma REPLAY_INDEX_inj:
  assumes "ord \<le> 28" and "unat x < 8 * 2 ^ ord" and "unat y < 8 * 2 ^ ord"
    and "REPLAY_INDEX ord b x = REPLAY_INDEX ord b y"
  shows "x = y"
proof -
  from assms(4) have "(unat b + unat x) mod (8 * 2 ^ ord) = (unat b + unat y) mod (8 * 2 ^ ord)"
    by (simp only: unat_REPLAY_INDEX [OF assms(1), symmetric])
  then have "(8 * 2 ^ ord) dvd nat \<bar>int (unat b + unat x) - int (unat b + unat y)\<bar>"
    by (simp only: mod_eq_iff_dvd_symdiff_nat)
  then have "(8 * 2 ^ ord) dvd nat \<bar>int (unat x) - int (unat y)\<bar>"
    by simp
  then have "unat x mod (8 * 2 ^ ord) = unat y mod (8 * 2 ^ ord)"
    by (simp only: mod_eq_iff_dvd_symdiff_nat)
  with assms(2,3) have "unat x = unat y" by simp
  then show ?thesis by (simp only: word_unat_eq_iff)
qed


lemma window_le_word:
  assumes "ord \<le> 28"
  shows "(8 * 2 ^ ord :: nat) \<le> 2 ^ 31"
proof -
  from assms have "(2::nat) ^ ord \<le> 2 ^ 28" by (intro power_increasing) simp_all
  then show ?thesis by simp
qed

lemma unat_of_nat_window:
  assumes "ord \<le> 28" and "j < 8 * 2 ^ ord"
  shows "unat (of_nat j :: u32) = j"
proof -
  from window_le_word [OF assms(1)] assms(2) have "j < 2 ^ LENGTH(32)" by simp
  then show ?thesis by (simp only: unat_of_nat mod_less)
qed

lemma length_clear_skipped [simp]: "length (clear_skipped ord b i delta h) = length h"
proof (induction ord b i delta h rule: clear_skipped.induct)
  case (1 ord b i delta h)
  show ?case
  proof (cases "i < delta")
    case True
    with 1 show ?thesis by (subst clear_skipped.simps) simp
  next
    case False
    then show ?thesis by (subst clear_skipped.simps) simp
  qed
qed

lemma word_le_succ_cases:
  assumes "(i :: u32) < delta"
  shows "(i \<le> k) = (k = i \<or> i + 1 \<le> k)"
proof -
  from assms have "unat i < unat delta" by (simp add: word_less_nat_alt)
  moreover have "unat delta < 2 ^ 32"
    using unsigned_less [of delta, where 'a = nat] by simp
  ultimately have "unat i + 1 < 2 ^ 32" by simp
  then have "unat (i + 1) = unat i + 1" by (simp add: unat_word_ariths)
  then show ?thesis
    by (auto simp add: word_le_nat_alt word_unat_eq_iff)
qed

lemma hist_test_clear_skipped:
  assumes "ord \<le> 28" and "length h = 2 ^ ord"
  shows "hist_test (clear_skipped ord b i delta h) q =
           (hist_test h q \<and> \<not> (\<exists>k. i \<le> k \<and> k < delta \<and> q = unat (REPLAY_INDEX ord b k)))"
  using assms
proof (induction ord b i delta h rule: clear_skipped.induct)
  case (1 ord b i delta h)
  note small = \<open>ord \<le> 28\<close> and len = \<open>length h = 2 ^ ord\<close>
  show ?case
  proof (cases "i < delta")
    case True
    let ?h = "hist_clear h (unat (REPLAY_INDEX ord b i))"
    have step: "clear_skipped ord b i delta h = clear_skipped ord b (i + 1) delta ?h"
      using True by (subst clear_skipped.simps) simp
    have len': "length ?h = 2 ^ ord" using len by simp
    have "unat (REPLAY_INDEX ord b i) < 8 * length h"
      using REPLAY_INDEX_less [OF small, of b i] len by simp
    then have clr: "hist_test ?h q = (q \<noteq> unat (REPLAY_INDEX ord b i) \<and> hist_test h q)"
      by (rule hist_test_clear)
    have "hist_test (clear_skipped ord b i delta h) q =
        (hist_test ?h q \<and>
         \<not> (\<exists>k. i + 1 \<le> k \<and> k < delta \<and> q = unat (REPLAY_INDEX ord b k)))"
      unfolding step using "1.IH" [OF True small len'] .
    also have "\<dots> = (hist_test h q \<and>
         \<not> (\<exists>k. i \<le> k \<and> k < delta \<and> q = unat (REPLAY_INDEX ord b k)))"
      unfolding clr word_le_succ_cases [OF True] using True by auto
    finally show ?thesis .
  next
    case False
    then have "clear_skipped ord b i delta h = h"
      by (subst clear_skipped.simps) simp
    moreover from False have "\<not> (\<exists>k. i \<le> k \<and> k < delta \<and> q = unat (REPLAY_INDEX ord b k))"
      by auto
    ultimately show ?thesis by simp
  qed
qed

section \<open>The invariant of the window\<close>

lemma pktid_invI:
  assumes "length (history pr) = 2 ^ ord"
    and "unat (extent pr) \<le> unat (REPLAY_WINDOW_SIZE ord)"
    and "\<And>j. j < unat (extent pr) \<Longrightarrow>
           hist_test (history pr) (unat (REPLAY_INDEX ord (base pr) (of_nat j))) \<Longrightarrow>
           j < unat (id_recv pr) \<and> (time pr, id_recv pr - of_nat j) \<in> A"
  shows "pktid_inv ord pr A"
  using assms by (simp add: pktid_inv_def REPLAY_WINDOW_BYTES_def word_le_nat_alt)

lemma pktid_invD:
  assumes "pktid_inv ord pr A"
  shows "length (history pr) = 2 ^ ord"
    and "unat (extent pr) \<le> unat (REPLAY_WINDOW_SIZE ord)"
    and "\<And>j. j < unat (extent pr) \<Longrightarrow>
           hist_test (history pr) (unat (REPLAY_INDEX ord (base pr) (of_nat j))) \<Longrightarrow>
           j < unat (id_recv pr) \<and> (time pr, id_recv pr - of_nat j) \<in> A"
  using assms by (simp_all add: pktid_inv_def REPLAY_WINDOW_BYTES_def word_le_nat_alt)

lemma REPLAY_INDEX_zero:
  assumes "ord \<le> 28"
  shows "REPLAY_INDEX ord (REPLAY_INDEX ord b x) 0 = REPLAY_INDEX ord b x"
  using REPLAY_INDEX_add [OF assms, of b x 0] by simp

lemma REPLAY_INDEX_base_distinct:
  assumes "ord \<le> 28" and "0 < j" and "j < 8 * 2 ^ ord"
  shows "unat (REPLAY_INDEX ord (REPLAY_INDEX ord b x) (of_nat j)) \<noteq> unat (REPLAY_INDEX ord b x)"
proof
  let ?b = "REPLAY_INDEX ord b x"
  assume "unat (REPLAY_INDEX ord ?b (of_nat j)) = unat ?b"
  then have "REPLAY_INDEX ord ?b (of_nat j) = REPLAY_INDEX ord ?b 0"
    by (simp only: word_unat_eq_iff REPLAY_INDEX_zero [OF assms(1)])
  moreover have "unat (of_nat j :: u32) < 8 * 2 ^ ord"
    using assms by (simp add: unat_of_nat_window)
  moreover have "unat (0 :: u32) < 8 * 2 ^ ord" by simp
  ultimately have "(of_nat j :: u32) = 0"
    by (rule REPLAY_INDEX_inj [OF assms(1), rotated 2])
  then have "unat (of_nat j :: u32) = 0" by simp
  with assms show False by (simp add: unat_of_nat_window)
qed

lemma jump_near_inv:
  assumes small: "ord \<le> 28" and inv: "pktid_inv ord pr A"
    and fwd: "id_recv pr < p" and near: "p - id_recv pr < REPLAY_WINDOW_SIZE ord"
  shows "pktid_inv ord (pktid_jump ord pr p) (insert (time pr, p) A)"
proof -
  let ?W = "8 * 2 ^ ord :: nat"
  let ?d = "p - id_recv pr"
  let ?b = "REPLAY_INDEX ord (base pr) (- ?d)"
  let ?h1 = "hist_set (history pr) (unat ?b)"
  let ?h = "clear_skipped ord ?b 1 ?d ?h1"
  let ?e = "extent pr + ?d"
  let ?e' = "if REPLAY_WINDOW_SIZE ord < ?e then REPLAY_WINDOW_SIZE ord else ?e"
  note W = unat_REPLAY_WINDOW_SIZE [OF small]
  note len = pktid_invD(1) [OF inv] and ext = pktid_invD(2) [OF inv] and bits = pktid_invD(3) [OF inv]
  have le: "id_recv pr \<le> p" using fwd by simp
  have d: "unat ?d = unat p - unat (id_recv pr)"
    using le by (simp add: unat_sub)
  have dpos: "0 < unat ?d" and idp: "unat (id_recv pr) < unat p"
    using fwd d by (simp_all add: word_less_nat_alt)
  have dW: "unat ?d < ?W"
    using near by (simp add: word_less_nat_alt W)
  have e: "unat ?e = unat (extent pr) + unat ?d"
  proof -
    have "unat (extent pr) + unat ?d < 2 ^ 32"
      using ext dW window_le_word [OF small] by (simp add: W)
    then show ?thesis by (simp add: unat_word_ariths)
  qed
  have e': "unat ?e' = min ?W (unat (extent pr) + unat ?d)"
    using e by (auto simp add: word_less_nat_alt W)
  have fields: "base (pktid_jump ord pr p) = ?b" "history (pktid_jump ord pr p) = ?h"
    "extent (pktid_jump ord pr p) = ?e'" "id_recv (pktid_jump ord pr p) = p"
    "time (pktid_jump ord pr p) = time pr"
    using near by (simp_all add: pktid_jump_def Let_def)
  show ?thesis
  proof (rule pktid_invI)
    show "length (history (pktid_jump ord pr p)) = 2 ^ ord"
      using len by (simp add: fields)
    show "unat (extent (pktid_jump ord pr p)) \<le> unat (REPLAY_WINDOW_SIZE ord)"
      unfolding fields e' W by simp
  next
    fix j
    assume "j < unat (extent (pktid_jump ord pr p))"
      and "hist_test (history (pktid_jump ord pr p))
             (unat (REPLAY_INDEX ord (base (pktid_jump ord pr p)) (of_nat j)))"
    then have j: "j < ?W" "j < unat (extent pr) + unat ?d"
      and test: "hist_test ?h (unat (REPLAY_INDEX ord ?b (of_nat j)))"
      unfolding fields e' by simp_all
    let ?q = "unat (REPLAY_INDEX ord ?b (of_nat j))"
    have len1: "length ?h1 = 2 ^ ord" using len by simp
    from test have t1: "hist_test ?h1 ?q"
      and kept: "\<And>k. 1 \<le> k \<Longrightarrow> k < ?d \<Longrightarrow> ?q \<noteq> unat (REPLAY_INDEX ord ?b k)"
      unfolding hist_test_clear_skipped [OF small len1] by auto
    have "unat ?b < 8 * length (history pr)"
      using REPLAY_INDEX_less [OF small, of "base pr" "- ?d"] len by simp
    then have set1: "hist_test ?h1 ?q = (?q = unat ?b \<or> hist_test (history pr) ?q)"
      by (rule hist_test_set)
    have uj: "unat (of_nat j :: u32) = j"
      using j(1) by (rule unat_of_nat_window [OF small])
    show "j < unat (id_recv (pktid_jump ord pr p)) \<and>
          (time (pktid_jump ord pr p), id_recv (pktid_jump ord pr p) - of_nat j)
            \<in> insert (time pr, p) A"
    proof (cases "j = 0")
      case True
      with idp show ?thesis by (simp add: fields)
    next
      case False
      then have jpos: "0 < j" by simp
      have far: "unat ?d \<le> j"
      proof (rule ccontr)
        assume "\<not> unat ?d \<le> j"
        then have "(of_nat j :: u32) < ?d"
          using uj by (simp add: word_less_nat_alt)
        moreover have "(1 :: u32) \<le> of_nat j"
          using uj jpos by (simp add: word_le_nat_alt)
        ultimately show False
          using kept [of "of_nat j"] by simp
      qed
      have "?q \<noteq> unat ?b"
        using jpos j(1) by (rule REPLAY_INDEX_base_distinct [OF small])
      with t1 set1 have old: "hist_test (history pr) ?q" by simp
      have shift: "(of_nat (j - unat ?d) :: u32) = - ?d + of_nat j"
        using far by (simp add: of_nat_diff)
      have "REPLAY_INDEX ord ?b (of_nat j) = REPLAY_INDEX ord (base pr) (of_nat (j - unat ?d))"
        unfolding shift by (rule REPLAY_INDEX_add [OF small])
      with old have "hist_test (history pr)
          (unat (REPLAY_INDEX ord (base pr) (of_nat (j - unat ?d))))"
        by simp
      moreover have "j - unat ?d < unat (extent pr)"
        using j(2) far by simp
      ultimately have prev: "j - unat ?d < unat (id_recv pr)"
        "(time pr, id_recv pr - of_nat (j - unat ?d)) \<in> A"
        using bits [of "j - unat ?d"] by simp_all
      have "id_recv pr - of_nat (j - unat ?d) = p - of_nat j"
        unfolding shift by simp
      with prev far d idp show ?thesis
        by (simp add: fields)
    qed
  qed
qed


lemma window_word_gt_1:
  assumes "ord \<le> 28"
  shows "1 < REPLAY_WINDOW_SIZE ord"
proof -
  have "(1::nat) \<le> 2 ^ ord" by simp
  then have "(1::nat) < 8 * 2 ^ ord" by linarith
  then show ?thesis
    using unat_REPLAY_WINDOW_SIZE [OF assms] by (simp add: word_less_nat_alt)
qed

lemma clear_skipped_none: "clear_skipped ord b 1 1 h = h"
  by (subst clear_skipped.simps) simp

lemma advance_is_jump:
  assumes small: "ord \<le> 28" and ext: "extent pr \<le> REPLAY_WINDOW_SIZE ord"
    and next_id: "p = id_recv pr + 1"
  shows "pktid_advance ord pr p = pktid_jump ord pr p"
proof -
  note W = unat_REPLAY_WINDOW_SIZE [OF small]
  have d: "p - id_recv pr = 1" using next_id by simp
  have "(if extent pr < REPLAY_WINDOW_SIZE ord then extent pr + 1 else extent pr) =
        (if REPLAY_WINDOW_SIZE ord < extent pr + 1 then REPLAY_WINDOW_SIZE ord
         else extent pr + 1)"
  proof (cases "extent pr < REPLAY_WINDOW_SIZE ord")
    case True
    then have "unat (extent pr) < unat (REPLAY_WINDOW_SIZE ord)"
      by (simp add: word_less_nat_alt)
    moreover from this have "unat (extent pr + 1) = unat (extent pr) + 1"
      using window_le_word [OF small] by (simp add: unat_word_ariths W)
    ultimately have "\<not> REPLAY_WINDOW_SIZE ord < extent pr + 1"
      by (simp add: word_less_nat_alt)
    with True show ?thesis by simp
  next
    case False
    with ext have eq: "extent pr = REPLAY_WINDOW_SIZE ord" by simp
    have "unat (REPLAY_WINDOW_SIZE ord + 1) = unat (REPLAY_WINDOW_SIZE ord) + 1"
      using window_le_word [OF small] by (simp add: unat_word_ariths W)
    then have "REPLAY_WINDOW_SIZE ord < REPLAY_WINDOW_SIZE ord + 1"
      by (simp add: word_less_nat_alt)
    with eq show ?thesis by simp
  qed
  then show ?thesis
    using window_word_gt_1 [OF small]
    by (simp add: pktid_advance_def pktid_jump_def Let_def d clear_skipped_none)
qed

lemma jump_far_inv:
  assumes small: "ord \<le> 28" and nz: "p \<noteq> 0"
    and far: "\<not> p - id_recv pr < REPLAY_WINDOW_SIZE ord"
  shows "pktid_inv ord (pktid_jump ord pr p) (insert (time pr, p) A)"
proof -
  note W = unat_REPLAY_WINDOW_SIZE [OF small]
  have fields: "base (pktid_jump ord pr p) = 0"
    "history (pktid_jump ord pr p) = (replicate (2 ^ ord) 0)[0 := 1]"
    "extent (pktid_jump ord pr p) = REPLAY_WINDOW_SIZE ord" "id_recv (pktid_jump ord pr p) = p"
    "time (pktid_jump ord pr p) = time pr"
    using far by (simp_all add: pktid_jump_def Let_def REPLAY_WINDOW_BYTES_def)
  show ?thesis
  proof (rule pktid_invI)
    show "length (history (pktid_jump ord pr p)) = 2 ^ ord"
      by (simp add: fields)
    show "unat (extent (pktid_jump ord pr p)) \<le> unat (REPLAY_WINDOW_SIZE ord)"
      by (simp add: fields)
  next
    fix j
    assume "j < unat (extent (pktid_jump ord pr p))"
      and "hist_test (history (pktid_jump ord pr p))
             (unat (REPLAY_INDEX ord (base (pktid_jump ord pr p)) (of_nat j)))"
    then have j: "j < 8 * 2 ^ ord"
      and test: "hist_test ((replicate (2 ^ ord) 0)[0 := 1]) (unat (REPLAY_INDEX ord 0 (of_nat j)))"
      unfolding fields W by simp_all
    have "unat (REPLAY_INDEX ord 0 (of_nat j)) = j"
      using j by (simp add: unat_REPLAY_INDEX [OF small] unat_of_nat_window [OF small])
    with test j have "j = 0"
      by (simp add: hist_test_fresh)
    moreover have "0 < unat p"
      using nz by (simp add: unat_gt_0)
    ultimately show "j < unat (id_recv (pktid_jump ord pr p)) \<and>
          (time (pktid_jump ord pr p), id_recv (pktid_jump ord pr p) - of_nat j)
            \<in> insert (time pr, p) A"
      by (simp add: fields)
  qed
qed

lemma backtrack_inv:
  assumes small: "ord \<le> 28" and inv: "pktid_inv ord pr A"
    and nz: "p \<noteq> 0" and le: "p \<le> id_recv pr"
  shows "pktid_inv ord (snd (pktid_backtrack ord texp pr now p))
           (pktid_accepted A (fst (pktid_backtrack ord texp pr now p)) p (time pr))"
proof -
  let ?d = "id_recv pr - p"
  let ?ri = "unat (REPLAY_INDEX ord (base pr) ?d)"
  let ?r = "pktid_backtrack ord texp pr now p"
  note W = unat_REPLAY_WINDOW_SIZE [OF small]
  note len = pktid_invD(1) [OF inv] and ext = pktid_invD(2) [OF inv] and bits = pktid_invD(3) [OF inv]
  show ?thesis
  proof (cases "fst ?r")
    case (Inl e)
    then have same: "history (snd ?r) = history pr" "base (snd ?r) = base pr"
      "extent (snd ?r) = extent pr" "id_recv (snd ?r) = id_recv pr" "time (snd ?r) = time pr"
      by (simp_all add: pktid_backtrack_reject)
    from inv show ?thesis
      by (simp add: pktid_inv_def same Inl pktid_accepted_def)
  next
    case (Inr u)
    then have inwin: "?d < extent pr" and clear: "\<not> hist_test (history pr) ?ri"
      by (simp_all add: pktid_backtrack_def Let_def split: if_splits)
    with Inr have fields: "history (snd ?r) = hist_set (history pr) ?ri"
      "base (snd ?r) = base pr" "extent (snd ?r) = extent pr" "id_recv (snd ?r) = id_recv pr"
      "time (snd ?r) = time pr"
      by (simp_all add: pktid_backtrack_def Let_def split: if_splits)
    have d: "unat ?d = unat (id_recv pr) - unat p"
      using le by (simp add: unat_sub)
    have "0 < unat p" using nz by (simp add: unat_gt_0)
    moreover have "unat p \<le> unat (id_recv pr)" using le by (simp add: word_le_nat_alt)
    ultimately have dlt: "unat ?d < unat (id_recv pr)"
      unfolding d by simp
    have dext: "unat ?d < unat (extent pr)"
      using inwin by (simp add: word_less_nat_alt)
    have "pktid_inv ord (snd ?r) (insert (time pr, p) A)"
    proof (rule pktid_invI)
      show "length (history (snd ?r)) = 2 ^ ord"
        using len by (simp add: fields)
      show "unat (extent (snd ?r)) \<le> unat (REPLAY_WINDOW_SIZE ord)"
        using ext by (simp add: fields)
    next
      fix j
      assume "j < unat (extent (snd ?r))"
        and "hist_test (history (snd ?r)) (unat (REPLAY_INDEX ord (base (snd ?r)) (of_nat j)))"
      then have j: "j < unat (extent pr)"
        and test: "hist_test (hist_set (history pr) ?ri)
                     (unat (REPLAY_INDEX ord (base pr) (of_nat j)))"
        unfolding fields by simp_all
      have jW: "j < 8 * 2 ^ ord" using j ext by (simp add: W)
      have uj: "unat (of_nat j :: u32) = j"
        using jW by (rule unat_of_nat_window [OF small])
      have "?ri < 8 * length (history pr)"
        using REPLAY_INDEX_less [OF small, of "base pr" ?d] len by simp
      from test hist_test_set [OF this]
      have "unat (REPLAY_INDEX ord (base pr) (of_nat j)) = ?ri \<or>
            hist_test (history pr) (unat (REPLAY_INDEX ord (base pr) (of_nat j)))"
        by simp
      then show "j < unat (id_recv (snd ?r)) \<and>
          (time (snd ?r), id_recv (snd ?r) - of_nat j) \<in> insert (time pr, p) A"
      proof
        assume "unat (REPLAY_INDEX ord (base pr) (of_nat j)) = ?ri"
        then have "REPLAY_INDEX ord (base pr) (of_nat j) = REPLAY_INDEX ord (base pr) ?d"
          by (simp only: word_unat_eq_iff)
        moreover have "unat (of_nat j :: u32) < 8 * 2 ^ ord" using uj jW by simp
        moreover have "unat ?d < 8 * 2 ^ ord" using dext ext by (simp add: W)
        ultimately have "(of_nat j :: u32) = ?d"
          by (rule REPLAY_INDEX_inj [OF small, rotated 2])
        with uj dlt show ?thesis
          by (auto simp add: fields)
      next
        assume "hist_test (history pr) (unat (REPLAY_INDEX ord (base pr) (of_nat j)))"
        with bits [OF j] show ?thesis
          by (simp add: fields)
      qed
    qed
    then show ?thesis
      by (simp add: Inr pktid_accepted_def)
  qed
qed

lemma pktid_inv_frame:
  assumes "history pr' = history pr" "base pr' = base pr" "extent pr' = extent pr"
    "id_recv pr' = id_recv pr" "time pr' = time pr"
  shows "pktid_inv ord pr' A = pktid_inv ord pr A"
  by (simp add: pktid_inv_def assms)

lemma pktid_inv_accept:
  "pktid_inv ord (pr\<lparr>expire := x\<rparr>) A = pktid_inv ord pr A"
  by (rule pktid_inv_frame) simp_all

lemma pktid_inv_expire_floor:
  "pktid_inv ord (pktid_expire_floor pr now) A = pktid_inv ord pr A"
  by (rule pktid_inv_frame) (simp_all add: pktid_expire_floor_def)

lemma pktid_inv_time_reset:
  assumes "pktid_inv ord pr A"
  shows "pktid_inv ord (pktid_time_reset pr t) A"
  using assms by (simp add: pktid_inv_def pktid_time_reset_def)

lemma pktid_inv_init: "pktid_inv ord (ovpn_pktid_recv_init ord) {}"
  by (simp add: pktid_inv_def ovpn_pktid_recv_init_def)

lemma window_inv:
  assumes small: "ord \<le> 28" and inv: "pktid_inv ord pr A" and nz: "p \<noteq> 0"
  shows "pktid_inv ord (snd (pktid_window ord texp pr now p))
           (pktid_accepted A (fst (pktid_window ord texp pr now p)) p (time pr))"
proof (cases "p = id_recv pr + 1")
  case True
  have ext: "extent pr \<le> REPLAY_WINDOW_SIZE ord"
    using pktid_invD(2) [OF inv] by (simp add: word_le_nat_alt)
  have "unat p = unat (id_recv pr) + 1"
    using nz True by (simp add: unat_word_succ)
  then have fwd: "id_recv pr < p" by (simp add: word_less_nat_alt)
  have near: "p - id_recv pr < REPLAY_WINDOW_SIZE ord"
    using True window_word_gt_1 [OF small] by simp
  have "pktid_inv ord (pktid_advance ord pr p) (insert (time pr, p) A)"
    unfolding advance_is_jump [OF small ext True]
    by (rule jump_near_inv [OF small inv fwd near])
  with True show ?thesis
    by (simp add: pktid_window_def pktid_inv_accept pktid_accepted_def)
next
  case not_next: False
  show ?thesis
  proof (cases "id_recv pr < p")
    case True
    have "pktid_inv ord (pktid_jump ord pr p) (insert (time pr, p) A)"
    proof (cases "p - id_recv pr < REPLAY_WINDOW_SIZE ord")
      case True
      with small inv \<open>id_recv pr < p\<close> show ?thesis by (rule jump_near_inv)
    next
      case False
      with small nz show ?thesis by (rule jump_far_inv)
    qed
    with True not_next show ?thesis
      by (simp add: pktid_window_def pktid_inv_accept pktid_accepted_def)
  next
    case False
    then have "p \<le> id_recv pr" by simp
    with small inv nz
    have "pktid_inv ord (snd (pktid_backtrack ord texp pr now p))
           (pktid_accepted A (fst (pktid_backtrack ord texp pr now p)) p (time pr))"
      by (rule backtrack_inv)
    with False not_next show ?thesis
      by (simp add: pktid_window_def)
  qed
qed

lemma recv_inv:
  assumes small: "ord \<le> 28" and inv: "pktid_inv ord pr A"
  shows "pktid_inv ord (snd (ovpn_pktid_recv_unlocked ord texp pr now p t))
           (pktid_accepted A (fst (ovpn_pktid_recv_unlocked ord texp pr now p t)) p t)"
proof -
  let ?pr = "pktid_expire_floor pr now"
  have inv': "pktid_inv ord ?pr A"
    using inv by (simp add: pktid_inv_expire_floor)
  have tm: "time ?pr = time pr"
    by (simp add: pktid_expire_floor_def)
  show ?thesis
  proof (cases "p = 0")
    case True
    with inv' show ?thesis
      by (simp add: ovpn_pktid_recv_unlocked_def Let_def pktid_accepted_def)
  next
    case nz: False
    show ?thesis
    proof (cases "t = time pr")
      case True
      with nz window_inv [OF small inv' nz, of texp now] show ?thesis
        by (simp add: ovpn_pktid_recv_unlocked_def Let_def tm)
    next
      case ne: False
      show ?thesis
      proof (cases "time pr < t")
        case True
        have "pktid_inv ord (pktid_time_reset ?pr t) A"
          using inv' by (rule pktid_inv_time_reset)
        from window_inv [OF small this nz, of texp now] nz ne True show ?thesis
          by (simp add: ovpn_pktid_recv_unlocked_def Let_def tm pktid_time_reset_def)
      next
        case False
        with nz ne inv' show ?thesis
          by (simp add: ovpn_pktid_recv_unlocked_def Let_def tm pktid_accepted_def)
      qed
    qed
  qed
qed


lemma recv_seq_inv:
  assumes small: "ord \<le> 28" and inv: "pktid_inv ord pr A"
  shows "pktid_inv ord (snd (pktid_recv_seq ord texp pr ps))
           (pktid_accepted_seq A (fst (pktid_recv_seq ord texp pr ps)) ps)"
  using inv
proof (induction ps arbitrary: pr A)
  case Nil
  then show ?case by simp
next
  case (Cons x ps)
  obtain now p t where x: "x = (now, p, t)" by (cases x)
  from recv_inv [OF small Cons.prems, of texp now p t]
  show ?case
    unfolding x pktid_recv_seq_Cons by (simp add: Cons.IH)
qed


text \<open>
  Claim C5. The invariant \<open>pktid_inv\<close>: the extent is at most \<open>W\<close>, and every bit that
  is set at a ring index \<open>j\<close> in \<open>[0, extent)\<close> from the base stands for the id
  \<open>id - j\<close>, an id of \<open>(id - extent, id]\<close> that is at least 1 and was accepted before
  at the current epoch. It holds of the initial state with nothing accepted, every call
  of the detector preserves it, whether the call accepts (the accepted pair is added) or
  rejects, and so it holds after every sequence of calls from the initial state, for
  the set of the pairs accepted along it.
\<close>

theorem replay_window_invariant:
  "pktid_inv ord (ovpn_pktid_recv_init ord) {} \<and>
   (ord \<le> 28 \<and> pktid_inv ord pr A \<longrightarrow>
      pktid_inv ord (snd (ovpn_pktid_recv_unlocked ord texp pr now pkt_id pkt_time))
        (pktid_accepted A (fst (ovpn_pktid_recv_unlocked ord texp pr now pkt_id pkt_time))
           pkt_id pkt_time)) \<and>
   (ord \<le> 28 \<longrightarrow>
      pktid_inv ord (snd (pktid_recv_seq ord texp (ovpn_pktid_recv_init ord) ps))
        (pktid_accepted_seq {} (fst (pktid_recv_seq ord texp (ovpn_pktid_recv_init ord) ps)) ps))"
  using pktid_inv_init recv_inv recv_seq_inv by blast

theorem replay_window_invariant_witness:
  "(3 :: nat) \<le> 28 \<and>
   pktid_inv 3
     \<lparr>history = [0, 0, 0, 0, 0, 0, 0, 248], base = 59, extent = 5, expire = 34,
       id_recv = 5, time = 1000, id_floor = 0, max_backtrack = 1\<rparr>
     {(1000, 1), (1000, 2), (1000, 3), (1000, 5), (1000, 4)} \<and>
   fst (ovpn_pktid_recv_unlocked 3 30
     \<lparr>history = [0, 0, 0, 0, 0, 0, 0, 248], base = 59, extent = 5, expire = 34,
       id_recv = 5, time = 1000, id_floor = 0, max_backtrack = 1\<rparr> 5 7 1000) = Inr () \<and>
   pktid_inv 3
     (snd (ovpn_pktid_recv_unlocked 3 30
       \<lparr>history = [0, 0, 0, 0, 0, 0, 0, 248], base = 59, extent = 5, expire = 34,
         id_recv = 5, time = 1000, id_floor = 0, max_backtrack = 1\<rparr> 5 7 1000))
     (insert (1000, 7) {(1000, 1), (1000, 2), (1000, 3), (1000, 5), (1000, 4)})"
proof -
  let ?pr = "\<lparr>history = [0, 0, 0, 0, 0, 0, 0, 248], base = 59, extent = 5, expire = 34,
       id_recv = 5, time = 1000, id_floor = 0, max_backtrack = 1\<rparr> :: ovpn_pktid_recv"
  let ?A = "{(1000, 1), (1000, 2), (1000, 3), (1000, 5), (1000, 4)} :: (u32 \<times> u32) set"
  have small: "(3 :: nat) \<le> 28" by simp
  have inv: "pktid_inv 3 ?pr ?A"
    by code_simp
  have ok: "fst (ovpn_pktid_recv_unlocked 3 30 ?pr 5 7 1000) = Inr ()"
    by code_simp
  from replay_window_invariant [of 3 ?pr ?A 30 5 7 1000, THEN conjunct2, THEN conjunct1, THEN mp, OF conjI, OF small inv]
  have "pktid_inv 3 (snd (ovpn_pktid_recv_unlocked 3 30 ?pr 5 7 1000))
          (pktid_accepted ?A (fst (ovpn_pktid_recv_unlocked 3 30 ?pr 5 7 1000)) 7 1000)" .
  then have "pktid_inv 3 (snd (ovpn_pktid_recv_unlocked 3 30 ?pr 5 7 1000))
          (insert (1000, 7) ?A)"
    unfolding ok by (simp add: pktid_accepted_def)
  with small inv ok show ?thesis by simp
qed

section \<open>Increasing ids\<close>

lemma recv_forward_accept:
  assumes "pkt_id \<noteq> 0"
    and "time pr < t \<or> (time pr = t \<and> id_recv pr < pkt_id)"
  shows "fst (ovpn_pktid_recv_unlocked ord texp pr now pkt_id t) = Inr ()"
    and "id_recv (snd (ovpn_pktid_recv_unlocked ord texp pr now pkt_id t)) = pkt_id"
    and "time (snd (ovpn_pktid_recv_unlocked ord texp pr now pkt_id t)) = t"
proof -
  let ?pr = "pktid_expire_floor pr now"
  have pos: "0 < pkt_id"
    using assms(1) by (simp add: word_greater_zero_iff)
  have "fst (ovpn_pktid_recv_unlocked ord texp pr now pkt_id t) = Inr () \<and>
        id_recv (snd (ovpn_pktid_recv_unlocked ord texp pr now pkt_id t)) = pkt_id \<and>
        time (snd (ovpn_pktid_recv_unlocked ord texp pr now pkt_id t)) = t"
  proof (cases "time pr < t")
    case True
    then have "t \<noteq> time pr" by auto
    with True assms(1) pos show ?thesis
      by (simp add: ovpn_pktid_recv_unlocked_def Let_def pktid_window_def)
  next
    case False
    with assms(2) have "time pr = t" and "id_recv pr < pkt_id" by simp_all
    with assms(1) show ?thesis
      by (simp add: ovpn_pktid_recv_unlocked_def Let_def pktid_window_def)
  qed
  then show "fst (ovpn_pktid_recv_unlocked ord texp pr now pkt_id t) = Inr ()"
    and "id_recv (snd (ovpn_pktid_recv_unlocked ord texp pr now pkt_id t)) = pkt_id"
    and "time (snd (ovpn_pktid_recv_unlocked ord texp pr now pkt_id t)) = t"
    by simp_all
qed

lemma monotone_accept_from:
  assumes "sorted_wrt (<) (map snd ps)"
    and "ps \<noteq> [] \<longrightarrow> snd (hd ps) \<noteq> 0 \<and>
           (time pr < t \<or> (time pr = t \<and> id_recv pr < snd (hd ps)))"
  shows "fst (pktid_recv_seq ord texp pr (map (\<lambda>(now, p). (now, p, t)) ps)) =
           replicate (length ps) (Inr ())"
  using assms
proof (induction ps arbitrary: pr)
  case Nil
  show ?case by simp
next
  case (Cons x ps)
  obtain now p where x: "x = (now, p)" by (cases x)
  let ?pr = "snd (ovpn_pktid_recv_unlocked ord texp pr now p t)"
  from Cons.prems(2) have nz: "p \<noteq> 0"
    and start: "time pr < t \<or> (time pr = t \<and> id_recv pr < p)"
    by (simp_all add: x)
  note step = recv_forward_accept [OF nz start, of ord texp now]
  have "ps \<noteq> [] \<longrightarrow> snd (hd ps) \<noteq> 0 \<and>
           (time ?pr < t \<or> (time ?pr = t \<and> id_recv ?pr < snd (hd ps)))"
  proof
    assume "ps \<noteq> []"
    then have "snd (hd ps) \<in> set (map snd ps)" by (cases ps) simp_all
    with Cons.prems(1) have lt: "p < snd (hd ps)" by (auto simp add: x)
    then have "snd (hd ps) \<noteq> 0" by (auto simp add: word_less_nat_alt)
    with lt show "snd (hd ps) \<noteq> 0 \<and>
           (time ?pr < t \<or> (time ?pr = t \<and> id_recv ?pr < snd (hd ps)))"
      by (simp add: step)
  qed
  moreover from Cons.prems(1) have "sorted_wrt (<) (map snd ps)" by simp
  ultimately have "fst (pktid_recv_seq ord texp ?pr (map (\<lambda>(now, p). (now, p, t)) ps)) =
           replicate (length ps) (Inr ())"
    by (rule Cons.IH [rotated])
  with step(1) show ?case
    by (simp add: x pktid_recv_seq_Cons del: pktid_recv_seq.simps)
qed


text \<open>
  Claim C4. A strictly increasing sequence of packet ids with first id at least 1,
  presented at one epoch, is accepted id by id: every call returns 0. This holds from
  the initial state, for every epoch and whatever the values of \<open>jiffies\<close> at the calls
  are, and from every state whose epoch is older or whose epoch is the same and whose
  top id is below the first id.
\<close>

theorem replay_monotone_accept:
  assumes "sorted_wrt (<) (map snd ps)" and "ps \<noteq> [] \<longrightarrow> 1 \<le> snd (hd ps)"
  shows "fst (pktid_recv_seq ord texp (ovpn_pktid_recv_init ord)
                (map (\<lambda>(now, p). (now, p, epoch)) ps))
           = replicate (length ps) (Inr ()) \<and>
         (\<forall>pr. time pr < epoch \<or> (time pr = epoch \<and> (ps \<noteq> [] \<longrightarrow> id_recv pr < snd (hd ps))) \<longrightarrow>
            fst (pktid_recv_seq ord texp pr (map (\<lambda>(now, p). (now, p, epoch)) ps))
              = replicate (length ps) (Inr ()))"
proof (intro conjI allI impI)
  have nz: "ps \<noteq> [] \<longrightarrow> snd (hd ps) \<noteq> 0"
    using assms(2) by (auto simp add: word_le_nat_alt)
  have "ps \<noteq> [] \<longrightarrow> snd (hd ps) \<noteq> 0 \<and>
      (time (ovpn_pktid_recv_init ord) < epoch \<or>
       (time (ovpn_pktid_recv_init ord) = epoch \<and>
        id_recv (ovpn_pktid_recv_init ord) < snd (hd ps)))"
    using nz by (auto simp add: ovpn_pktid_recv_init_def word_greater_zero_iff)
  with assms(1) show "fst (pktid_recv_seq ord texp (ovpn_pktid_recv_init ord)
                (map (\<lambda>(now, p). (now, p, epoch)) ps)) = replicate (length ps) (Inr ())"
    by (rule monotone_accept_from)
  fix pr :: ovpn_pktid_recv
  assume "time pr < epoch \<or> (time pr = epoch \<and> (ps \<noteq> [] \<longrightarrow> id_recv pr < snd (hd ps)))"
  with nz have "ps \<noteq> [] \<longrightarrow> snd (hd ps) \<noteq> 0 \<and>
      (time pr < epoch \<or> (time pr = epoch \<and> id_recv pr < snd (hd ps)))"
    by auto
  with assms(1) show "fst (pktid_recv_seq ord texp pr (map (\<lambda>(now, p). (now, p, epoch)) ps))
              = replicate (length ps) (Inr ())"
    by (rule monotone_accept_from)
qed

theorem replay_monotone_accept_witness:
  "sorted_wrt (<) (map snd [(0, 1), (1, 2), (2, 3), (3, 5), (9, 200), (9, 201) :: ulong \<times> u32]) \<and>
   (1 :: u32) \<le> snd (hd [(0, 1), (1, 2), (2, 3), (3, 5), (9, 200), (9, 201) :: ulong \<times> u32]) \<and>
   fst (pktid_recv_seq 3 30 (ovpn_pktid_recv_init 3)
          [(0, 1, 1000), (1, 2, 1000), (2, 3, 1000), (3, 5, 1000), (9, 200, 1000), (9, 201, 1000)])
     = [Inr (), Inr (), Inr (), Inr (), Inr (), Inr ()]"
proof -
  let ?ps = "[(0, 1), (1, 2), (2, 3), (3, 5), (9, 200), (9, 201)] :: (ulong \<times> u32) list"
  have h1: "sorted_wrt (<) (map snd ?ps)" by simp
  have h2: "?ps \<noteq> [] \<longrightarrow> 1 \<le> snd (hd ?ps)" by simp
  from replay_monotone_accept [OF h1 h2, of 3 30 1000, THEN conjunct1] h1 h2
  show ?thesis by simp
qed

section \<open>The window below the top id\<close>

lemma not_expired_floor:
  "\<not> time_after_eq now (expire pr) \<Longrightarrow> pktid_expire_floor pr now = pr"
  by (simp add: pktid_expire_floor_def)

lemma window_id_unat:
  assumes small: "ord \<le> 28" and j: "j < 8 * 2 ^ ord" and room: "8 * 2 ^ ord \<le> unat (w :: u32)"
  shows "unat (w - of_nat j) = unat w - j" and "w - of_nat j \<le> w" and "w - (w - of_nat j) = of_nat j"
proof -
  have uj: "unat (of_nat j :: u32) = j"
    using j by (rule unat_of_nat_window [OF small])
  with j room have le: "(of_nat j :: u32) \<le> w"
    by (simp add: word_le_nat_alt)
  then show "unat (w - of_nat j) = unat w - j"
    by (simp add: unat_sub uj)
  then show "w - of_nat j \<le> w"
    by (simp add: word_le_nat_alt)
  show "w - (w - of_nat j) = of_nat j"
    by simp
qed

lemma backtrack_step:
  assumes small: "ord \<le> 28" and len: "length (history pr) = 2 ^ ord"
    and ext: "unat (extent pr) = 8 * 2 ^ ord"
    and room: "unat (id_floor pr) + 8 * 2 ^ ord \<le> unat (id_recv pr)"
    and fresh: "\<not> time_after_eq now (expire pr)"
    and p: "p = id_recv pr - of_nat j" and j: "j < 8 * 2 ^ ord"
  shows "ovpn_pktid_recv_unlocked ord texp pr now p (time pr) =
           pktid_backtrack ord texp pr now p"
    and "fst (pktid_backtrack ord texp pr now p) =
           (if pktid_seen ord pr p then Inl OVPN_ERR_PKTID_REPLAY else Inr ())"
    and "history (snd (pktid_backtrack ord texp pr now p)) =
           (if pktid_seen ord pr p then history pr
            else hist_set (history pr) (unat (REPLAY_INDEX ord (base pr) (of_nat j))))"
proof -
  have room': "8 * 2 ^ ord \<le> unat (id_recv pr)" using room by simp
  note wid = window_id_unat [OF small j room']
  have up: "unat p = unat (id_recv pr) - j" unfolding p by (rule wid(1))
  have ple: "p \<le> id_recv pr" unfolding p by (rule wid(2))
  have d: "id_recv pr - p = of_nat j" unfolding p by (rule wid(3))
  have floor: "id_floor pr < p"
    using up room j by (simp add: word_less_nat_alt)
  then have nz: "p \<noteq> 0" by (auto simp add: word_less_nat_alt)
  have not_next: "p \<noteq> id_recv pr + 1"
  proof
    assume eq: "p = id_recv pr + 1"
    with nz have "unat p = unat (id_recv pr) + 1" by (simp add: unat_word_succ)
    with up show False by simp
  qed
  have not_fwd: "\<not> id_recv pr < p" using ple by simp
  show "ovpn_pktid_recv_unlocked ord texp pr now p (time pr) = pktid_backtrack ord texp pr now p"
    using nz not_next not_fwd
    by (simp add: ovpn_pktid_recv_unlocked_def Let_def not_expired_floor [OF fresh]
          pktid_window_def)
  have inwin: "id_recv pr - p < extent pr"
    unfolding d using j ext by (simp add: word_less_nat_alt unat_of_nat_window [OF small])
  show "fst (pktid_backtrack ord texp pr now p) =
           (if pktid_seen ord pr p then Inl OVPN_ERR_PKTID_REPLAY else Inr ())"
    using inwin floor by (simp add: pktid_backtrack_def Let_def pktid_seen_def)
  show "history (snd (pktid_backtrack ord texp pr now p)) =
           (if pktid_seen ord pr p then history pr
            else hist_set (history pr) (unat (REPLAY_INDEX ord (base pr) (of_nat j))))"
    using inwin floor by (simp add: pktid_backtrack_def Let_def pktid_seen_def d)
qed

lemma backtrack_fields:
  "base (snd (pktid_backtrack ord texp pr now p)) = base pr"
  "extent (snd (pktid_backtrack ord texp pr now p)) = extent pr"
  "id_recv (snd (pktid_backtrack ord texp pr now p)) = id_recv pr"
  "time (snd (pktid_backtrack ord texp pr now p)) = time pr"
  "id_floor (snd (pktid_backtrack ord texp pr now p)) = id_floor pr"
  "length (history (snd (pktid_backtrack ord texp pr now p))) = length (history pr)"
  by (simp_all add: pktid_backtrack_def Let_def)

lemma window_idsE:
  assumes "ord \<le> 28" and "q \<in> pktid_window_ids ord pr"
  obtains j where "j < 8 * 2 ^ ord" and "q = id_recv pr - of_nat j"
  using assms by (auto simp add: pktid_window_ids_def unat_REPLAY_WINDOW_SIZE)

lemma backtrack_seen:
  assumes small: "ord \<le> 28" and len: "length (history pr) = 2 ^ ord"
    and ext: "unat (extent pr) = 8 * 2 ^ ord"
    and room: "unat (id_floor pr) + 8 * 2 ^ ord \<le> unat (id_recv pr)"
    and fresh: "\<not> time_after_eq now (expire pr)"
    and p: "p \<in> pktid_window_ids ord pr" and q: "q \<in> pktid_window_ids ord pr"
  shows "pktid_seen ord (snd (pktid_backtrack ord texp pr now p)) q =
           (q = p \<or> pktid_seen ord pr q)"
proof -
  from small p obtain j where j: "j < 8 * 2 ^ ord" and pj: "p = id_recv pr - of_nat j"
    by (rule window_idsE)
  from small q obtain i where i: "i < 8 * 2 ^ ord" and qi: "q = id_recv pr - of_nat i"
    by (rule window_idsE)
  have room': "8 * 2 ^ ord \<le> unat (id_recv pr)" using room by simp
  have dq: "id_recv pr - q = of_nat i"
    unfolding qi by (rule window_id_unat(3) [OF small i room'])
  have dp: "id_recv pr - p = of_nat j"
    unfolding pj by (rule window_id_unat(3) [OF small j room'])
  let ?pr = "snd (pktid_backtrack ord texp pr now p)"
  let ?rq = "unat (REPLAY_INDEX ord (base pr) (of_nat i))"
  let ?rp = "unat (REPLAY_INDEX ord (base pr) (of_nat j))"
  have seen': "pktid_seen ord ?pr q = hist_test (history ?pr) ?rq"
    by (simp add: pktid_seen_def backtrack_fields dq)
  have seen_q: "pktid_seen ord pr q = hist_test (history pr) ?rq"
    by (simp add: pktid_seen_def dq)
  have seen_p: "pktid_seen ord pr p = hist_test (history pr) ?rp"
    by (simp add: pktid_seen_def dp)
  have same: "(?rq = ?rp) = (q = p)"
  proof
    assume "?rq = ?rp"
    then have "REPLAY_INDEX ord (base pr) (of_nat i) = REPLAY_INDEX ord (base pr) (of_nat j)"
      by (simp only: word_unat_eq_iff)
    moreover have "unat (of_nat i :: u32) < 8 * 2 ^ ord" "unat (of_nat j :: u32) < 8 * 2 ^ ord"
      using i j by (simp_all add: unat_of_nat_window [OF small])
    ultimately have "(of_nat i :: u32) = of_nat j"
      by (rule REPLAY_INDEX_inj [OF small, rotated 2])
    then show "q = p" by (simp add: qi pj)
  next
    assume "q = p"
    then have "id_recv pr - q = id_recv pr - p" by simp
    then show "?rq = ?rp" by (simp only: dq dp)
  qed
  note hist = backtrack_step(3) [OF small len ext room fresh pj j, of texp]
  show ?thesis
  proof (cases "pktid_seen ord pr p")
    case True
    with hist have "history ?pr = history pr" by simp
    then have "pktid_seen ord ?pr q = pktid_seen ord pr q"
      by (simp add: seen' seen_q)
    moreover have "pktid_seen ord pr q" if "q = p"
      using True that by simp
    ultimately show ?thesis by blast
  next
    case False
    with hist have h: "history ?pr = hist_set (history pr) ?rp" by simp
    have "?rp < 8 * length (history pr)"
      using REPLAY_INDEX_less [OF small, of "base pr" "of_nat j"] len by simp
    then have "hist_test (hist_set (history pr) ?rp) ?rq = (?rq = ?rp \<or> hist_test (history pr) ?rq)"
      by (rule hist_test_set)
    then show ?thesis
      by (simp add: seen' seen_q h same)
  qed
qed

lemma window_ids_backtrack:
  "pktid_window_ids ord (snd (pktid_backtrack ord texp pr now p)) = pktid_window_ids ord pr"
  by (simp add: pktid_window_ids_def backtrack_fields)

lemma window_seq:
  assumes small: "ord \<le> 28"
  shows "length (history pr) = 2 ^ ord \<Longrightarrow> unat (extent pr) = 8 * 2 ^ ord \<Longrightarrow>
    unat (id_floor pr) + 8 * 2 ^ ord \<le> unat (id_recv pr) \<Longrightarrow>
    distinct (map snd ps) \<Longrightarrow> snd ` set ps \<subseteq> pktid_window_ids ord pr \<Longrightarrow>
    pktid_no_expiry ord texp pr (map (\<lambda>(now, p). (now, p, time pr)) ps) \<Longrightarrow>
    fst (pktid_recv_seq ord texp pr (map (\<lambda>(now, p). (now, p, time pr)) ps)) =
      map (\<lambda>(now, p). if pktid_seen ord pr p then Inl OVPN_ERR_PKTID_REPLAY else Inr ()) ps \<and>
    length (history (snd (pktid_recv_seq ord texp pr (map (\<lambda>(now, p). (now, p, time pr)) ps))))
      = 2 ^ ord \<and>
    extent (snd (pktid_recv_seq ord texp pr (map (\<lambda>(now, p). (now, p, time pr)) ps))) = extent pr \<and>
    id_recv (snd (pktid_recv_seq ord texp pr (map (\<lambda>(now, p). (now, p, time pr)) ps))) = id_recv pr \<and>
    id_floor (snd (pktid_recv_seq ord texp pr (map (\<lambda>(now, p). (now, p, time pr)) ps))) = id_floor pr \<and>
    time (snd (pktid_recv_seq ord texp pr (map (\<lambda>(now, p). (now, p, time pr)) ps))) = time pr \<and>
    (\<forall>q \<in> pktid_window_ids ord pr.
       pktid_seen ord (snd (pktid_recv_seq ord texp pr (map (\<lambda>(now, p). (now, p, time pr)) ps))) q
         = (pktid_seen ord pr q \<or> q \<in> snd ` set ps))"
proof (induction ps arbitrary: pr)
  case Nil
  then show ?case by simp
next
  case (Cons x ps)
  obtain now p where x: "x = (now, p)" by (cases x)
  let ?pr = "snd (pktid_backtrack ord texp pr now p)"
  let ?in = "\<lambda>pr. map (\<lambda>(now, p). (now, p, time pr)) ps"
  note len = Cons.prems(1) and ext = Cons.prems(2) and room = Cons.prems(3)
  from Cons.prems(5) have pwin: "p \<in> pktid_window_ids ord pr"
    and rest: "snd ` set ps \<subseteq> pktid_window_ids ord pr"
    by (simp_all add: x)
  from Cons.prems(6) have fresh: "\<not> time_after_eq now (expire pr)"
    by (simp add: x)
  from small pwin obtain j where j: "j < 8 * 2 ^ ord" and pj: "p = id_recv pr - of_nat j"
    by (rule window_idsE)
  note step = backtrack_step [OF small len ext room fresh pj j, of texp]
  have tm: "time ?pr = time pr" by (simp add: backtrack_fields)
  from Cons.prems(6) have noexp: "pktid_no_expiry ord texp ?pr (?in ?pr)"
    by (simp add: x step(1) tm)
  from Cons.prems(4) have dist: "distinct (map snd ps)" and notin: "p \<notin> snd ` set ps"
    by (simp_all add: x)
  have IH: "fst (pktid_recv_seq ord texp ?pr (?in ?pr)) =
      map (\<lambda>(now, p). if pktid_seen ord ?pr p then Inl OVPN_ERR_PKTID_REPLAY else Inr ()) ps \<and>
    length (history (snd (pktid_recv_seq ord texp ?pr (?in ?pr)))) = 2 ^ ord \<and>
    extent (snd (pktid_recv_seq ord texp ?pr (?in ?pr))) = extent ?pr \<and>
    id_recv (snd (pktid_recv_seq ord texp ?pr (?in ?pr))) = id_recv ?pr \<and>
    id_floor (snd (pktid_recv_seq ord texp ?pr (?in ?pr))) = id_floor ?pr \<and>
    time (snd (pktid_recv_seq ord texp ?pr (?in ?pr))) = time ?pr \<and>
    (\<forall>q \<in> pktid_window_ids ord ?pr.
       pktid_seen ord (snd (pktid_recv_seq ord texp ?pr (?in ?pr))) q
         = (pktid_seen ord ?pr q \<or> q \<in> snd ` set ps))"
    using len ext room dist rest noexp
    by (intro Cons.IH) (simp_all add: backtrack_fields window_ids_backtrack)
  have seen1: "pktid_seen ord ?pr q = (q = p \<or> pktid_seen ord pr q)"
    if "q \<in> pktid_window_ids ord pr" for q
    using small len ext room fresh pwin that by (rule backtrack_seen)
  have results: "map (\<lambda>(now, p). if pktid_seen ord ?pr p then Inl OVPN_ERR_PKTID_REPLAY else Inr ()) ps
      = map (\<lambda>(now, p). if pktid_seen ord pr p then Inl OVPN_ERR_PKTID_REPLAY else Inr ()) ps"
  proof (rule map_cong [OF refl])
    fix y assume y: "y \<in> set ps"
    obtain n q where yq: "y = (n, q)" by (cases y)
    from y yq rest have "q \<in> pktid_window_ids ord pr" by force
    moreover from y yq notin have "q \<noteq> p" by force
    ultimately have "pktid_seen ord ?pr q = pktid_seen ord pr q"
      by (simp add: seen1)
    then show "(case y of (now, p) \<Rightarrow> if pktid_seen ord ?pr p then Inl OVPN_ERR_PKTID_REPLAY else Inr ())
      = (case y of (now, p) \<Rightarrow> if pktid_seen ord pr p then Inl OVPN_ERR_PKTID_REPLAY else Inr ())"
      by (simp add: yq)
  qed
  have unfold: "pktid_recv_seq ord texp pr (map (\<lambda>(now, p). (now, p, time pr)) (x # ps)) =
      (fst (pktid_backtrack ord texp pr now p) # fst (pktid_recv_seq ord texp ?pr (?in ?pr)),
       snd (pktid_recv_seq ord texp ?pr (?in ?pr)))"
    by (simp add: x step(1) tm split_def Let_def)
  show ?case
    unfolding unfold using IH results step(2) seen1
    by (auto simp add: x backtrack_fields window_ids_backtrack)
qed

lemma pktid_no_expiry_append:
  "pktid_no_expiry ord texp pr (xs @ ys) =
     (pktid_no_expiry ord texp pr xs \<and>
      pktid_no_expiry ord texp (snd (pktid_recv_seq ord texp pr xs)) ys)"
proof (induction xs arbitrary: pr)
  case Nil
  show ?case by simp
next
  case (Cons x xs)
  obtain now p t where x: "x = (now, p, t)" by (cases x)
  show ?case
    unfolding x by (simp add: Cons.IH split_def Let_def)
qed


lemma jump_top_marked:
  assumes small: "ord \<le> 28" and len: "length (history pr) = 2 ^ ord"
  shows "length (history (pktid_jump ord pr p)) = 2 ^ ord"
    and "hist_test (history (pktid_jump ord pr p))
           (unat (REPLAY_INDEX ord (base (pktid_jump ord pr p)) 0))"
proof -
  let ?d = "p - id_recv pr"
  let ?b = "REPLAY_INDEX ord (base pr) (- ?d)"
  let ?h1 = "hist_set (history pr) (unat ?b)"
  note W = unat_REPLAY_WINDOW_SIZE [OF small]
  show "length (history (pktid_jump ord pr p)) = 2 ^ ord"
    using len by (simp add: pktid_jump_def Let_def REPLAY_WINDOW_BYTES_def)
  show "hist_test (history (pktid_jump ord pr p))
           (unat (REPLAY_INDEX ord (base (pktid_jump ord pr p)) 0))"
  proof (cases "?d < REPLAY_WINDOW_SIZE ord")
    case True
    have len1: "length ?h1 = 2 ^ ord" using len by simp
    have "unat ?b < 8 * length (history pr)"
      using REPLAY_INDEX_less [OF small, of "base pr" "- ?d"] len by simp
    then have marked: "hist_test ?h1 (unat ?b)"
      by (simp add: hist_test_set)
    have kept: "unat ?b \<noteq> unat (REPLAY_INDEX ord ?b k)" if "1 \<le> k" and "k < ?d" for k
    proof
      assume "unat ?b = unat (REPLAY_INDEX ord ?b k)"
      then have "REPLAY_INDEX ord ?b k = REPLAY_INDEX ord ?b 0"
        by (simp only: word_unat_eq_iff REPLAY_INDEX_zero [OF small])
      moreover have "unat k < 8 * 2 ^ ord"
        using that(2) True by (simp add: word_less_nat_alt W)
      moreover have "unat (0 :: u32) < 8 * 2 ^ ord" by simp
      ultimately have "k = 0"
        by (rule REPLAY_INDEX_inj [OF small, rotated 2])
      with that(1) show False by simp
    qed
    have "hist_test (clear_skipped ord ?b 1 ?d ?h1) (unat ?b)"
      unfolding hist_test_clear_skipped [OF small len1] using marked kept by blast
    with True show ?thesis
      by (simp add: pktid_jump_def Let_def REPLAY_INDEX_zero [OF small])
  next
    case False
    have "unat (REPLAY_INDEX ord 0 0) = 0"
      by (simp add: unat_REPLAY_INDEX [OF small])
    moreover have "hist_test ((replicate (2 ^ ord) (0 :: u8))[0 := 1]) 0"
      by (simp add: hist_test_fresh)
    ultimately show ?thesis
      using False by (simp add: pktid_jump_def Let_def REPLAY_WINDOW_BYTES_def)
  qed
qed

lemma advance_top_marked:
  assumes small: "ord \<le> 28" and len: "length (history pr) = 2 ^ ord"
  shows "length (history (pktid_advance ord pr p)) = 2 ^ ord"
    and "hist_test (history (pktid_advance ord pr p))
           (unat (REPLAY_INDEX ord (base (pktid_advance ord pr p)) 0))"
proof -
  let ?b = "REPLAY_INDEX ord (base pr) (- 1)"
  show "length (history (pktid_advance ord pr p)) = 2 ^ ord"
    using len by simp
  have "unat ?b < 8 * length (history pr)"
    using REPLAY_INDEX_less [OF small, of "base pr" "- 1"] len by simp
  then have "hist_test (hist_set (history pr) (unat ?b)) (unat ?b)"
    by (simp add: hist_test_set)
  then show "hist_test (history (pktid_advance ord pr p))
           (unat (REPLAY_INDEX ord (base (pktid_advance ord pr p)) 0))"
    by (simp add: REPLAY_INDEX_zero [OF small])
qed

lemma backtrack_top_marked:
  assumes small: "ord \<le> 28" and len: "length (history pr) = 2 ^ ord"
    and top: "extent pr \<noteq> 0 \<longrightarrow>
                hist_test (history pr) (unat (REPLAY_INDEX ord (base pr) 0))"
  shows "extent (snd (pktid_backtrack ord texp pr now p)) \<noteq> 0 \<longrightarrow>
           hist_test (history (snd (pktid_backtrack ord texp pr now p)))
             (unat (REPLAY_INDEX ord (base (snd (pktid_backtrack ord texp pr now p))) 0))"
proof (cases "fst (pktid_backtrack ord texp pr now p)")
  case (Inl e)
  then show ?thesis
    using top by (simp add: pktid_backtrack_reject)
next
  case (Inr u)
  let ?r = "pktid_backtrack ord texp pr now p"
  let ?ri = "unat (REPLAY_INDEX ord (base pr) (id_recv pr - p))"
  from Inr have inwin: "id_recv pr - p < extent pr"
    by (simp add: pktid_backtrack_def Let_def split: if_splits)
  then have "extent pr \<noteq> 0" by (auto simp add: word_less_nat_alt)
  with top have old: "hist_test (history pr) (unat (REPLAY_INDEX ord (base pr) 0))"
    by simp
  from Inr inwin have h: "history (snd ?r) = hist_set (history pr) ?ri"
    by (simp add: pktid_backtrack_def Let_def split: if_splits)
  have "?ri < 8 * length (history pr)"
    using REPLAY_INDEX_less [OF small, of "base pr" "id_recv pr - p"] len by simp
  then have "hist_test (hist_set (history pr) ?ri) (unat (REPLAY_INDEX ord (base pr) 0))"
    using old by (simp add: hist_test_set)
  then show ?thesis
    by (simp add: h backtrack_fields)
qed

lemma window_top_marked:
  assumes small: "ord \<le> 28" and len: "length (history pr) = 2 ^ ord"
    and top: "extent pr \<noteq> 0 \<longrightarrow>
                hist_test (history pr) (unat (REPLAY_INDEX ord (base pr) 0))"
  shows "length (history (snd (pktid_window ord texp pr now p))) = 2 ^ ord \<and>
         (extent (snd (pktid_window ord texp pr now p)) \<noteq> 0 \<longrightarrow>
            hist_test (history (snd (pktid_window ord texp pr now p)))
              (unat (REPLAY_INDEX ord (base (snd (pktid_window ord texp pr now p))) 0)))"
proof (cases "p = id_recv pr + 1")
  case True
  with advance_top_marked [OF small len, of p] show ?thesis
    by (simp add: pktid_window_def)
next
  case not_next: False
  show ?thesis
  proof (cases "id_recv pr < p")
    case True
    with not_next jump_top_marked [OF small len, of p] show ?thesis
      by (simp add: pktid_window_def)
  next
    case False
    with not_next backtrack_top_marked [OF small len top, of texp now p] len show ?thesis
      by (simp add: pktid_window_def backtrack_fields)
  qed
qed

lemma recv_top_marked:
  assumes small: "ord \<le> 28"
    and len: "length (history pr) = 2 ^ ord"
    and top: "extent pr \<noteq> 0 \<longrightarrow>
                hist_test (history pr) (unat (REPLAY_INDEX ord (base pr) 0))"
  shows "length (history (snd (ovpn_pktid_recv_unlocked ord texp pr now p t))) = 2 ^ ord \<and>
         (extent (snd (ovpn_pktid_recv_unlocked ord texp pr now p t)) \<noteq> 0 \<longrightarrow>
            hist_test (history (snd (ovpn_pktid_recv_unlocked ord texp pr now p t)))
              (unat (REPLAY_INDEX ord
                 (base (snd (ovpn_pktid_recv_unlocked ord texp pr now p t))) 0)))"
proof -
  let ?pr = "pktid_expire_floor pr now"
  have len': "length (history ?pr) = 2 ^ ord" using len by simp
  have top': "extent ?pr \<noteq> 0 \<longrightarrow> hist_test (history ?pr) (unat (REPLAY_INDEX ord (base ?pr) 0))"
    using top by simp
  show ?thesis
  proof (cases "p = 0 \<or> (t \<noteq> time pr \<and> \<not> time pr < t)")
    case True
    then have "snd (ovpn_pktid_recv_unlocked ord texp pr now p t) = ?pr"
      by (auto simp add: ovpn_pktid_recv_unlocked_def Let_def)
    with len top show ?thesis by simp
  next
    case False
    show ?thesis
    proof (cases "t = time pr")
      case True
      with False have "ovpn_pktid_recv_unlocked ord texp pr now p t =
          pktid_window ord texp ?pr now p"
        by (simp add: ovpn_pktid_recv_unlocked_def Let_def)
      with window_top_marked [OF small len' top', of texp now p] show ?thesis
        by simp
    next
      case ne: False
      let ?r = "pktid_time_reset ?pr t"
      from ne False have "ovpn_pktid_recv_unlocked ord texp pr now p t =
          pktid_window ord texp ?r now p"
        by (simp add: ovpn_pktid_recv_unlocked_def Let_def)
      moreover have "length (history ?r) = 2 ^ ord" using len by simp
      moreover have "extent ?r \<noteq> 0 \<longrightarrow>
          hist_test (history ?r) (unat (REPLAY_INDEX ord (base ?r) 0))"
        by simp
      ultimately show ?thesis
        using window_top_marked [OF small, of ?r texp now p] by simp
    qed
  qed
qed

lemma top_id_seen_reached:
  assumes small: "ord \<le> 28"
  shows "length (history (snd (pktid_recv_seq ord texp (ovpn_pktid_recv_init ord) ps))) = 2 ^ ord \<and>
         (extent (snd (pktid_recv_seq ord texp (ovpn_pktid_recv_init ord) ps)) \<noteq> 0 \<longrightarrow>
            pktid_seen ord (snd (pktid_recv_seq ord texp (ovpn_pktid_recv_init ord) ps))
              (id_recv (snd (pktid_recv_seq ord texp (ovpn_pktid_recv_init ord) ps))))"
proof -
  have run: "length (history (snd (pktid_recv_seq ord texp pr ps))) = 2 ^ ord \<and>
         (extent (snd (pktid_recv_seq ord texp pr ps)) \<noteq> 0 \<longrightarrow>
            hist_test (history (snd (pktid_recv_seq ord texp pr ps)))
              (unat (REPLAY_INDEX ord (base (snd (pktid_recv_seq ord texp pr ps))) 0)))"
    if "length (history pr) = 2 ^ ord"
      and "extent pr \<noteq> 0 \<longrightarrow> hist_test (history pr) (unat (REPLAY_INDEX ord (base pr) 0))"
    for pr
    using that
  proof (induction ps arbitrary: pr)
    case Nil
    then show ?case by simp
  next
    case (Cons x ps)
    obtain now p t where x: "x = (now, p, t)" by (cases x)
    from recv_top_marked [OF small Cons.prems, of texp now p t]
    show ?case
      unfolding x pktid_recv_seq_Cons by (intro Cons.IH) simp_all
  qed
  have "length (history (ovpn_pktid_recv_init ord)) = 2 ^ ord"
    and "extent (ovpn_pktid_recv_init ord) = 0"
    by (simp_all add: ovpn_pktid_recv_init_def REPLAY_WINDOW_BYTES_def)
  then show ?thesis
    using run [of "ovpn_pktid_recv_init ord"] by (simp add: pktid_seen_def)
qed

lemma full_window_accept:
  assumes small: "ord \<le> 28"
    and len: "length (history pr) = REPLAY_WINDOW_BYTES ord"
    and ext: "extent pr = REPLAY_WINDOW_SIZE ord"
    and room: "unat (id_floor pr) + unat (REPLAY_WINDOW_SIZE ord) \<le> unat (id_recv pr)"
    and dist: "distinct (map snd ps)"
    and perm: "snd ` set ps = pktid_window_ids ord pr"
    and noexp: "pktid_no_expiry ord texp pr
                  (map (\<lambda>(now, p). (now, p, time pr)) ps @ [(now', x, time pr)])"
    and x: "x \<in> pktid_window_ids ord pr"
  shows "fst (pktid_recv_seq ord texp pr (map (\<lambda>(now, p). (now, p, time pr)) ps)) =
           map (\<lambda>(now, p). if pktid_seen ord pr p then Inl OVPN_ERR_PKTID_REPLAY else Inr ()) ps \<and>
         fst (ovpn_pktid_recv_unlocked ord texp
                (snd (pktid_recv_seq ord texp pr (map (\<lambda>(now, p). (now, p, time pr)) ps)))
                now' x (time pr)) = Inl OVPN_ERR_PKTID_REPLAY \<and>
         (pr = snd (pktid_recv_seq ord texp (ovpn_pktid_recv_init ord) qs) \<longrightarrow>
            pktid_seen ord pr (id_recv pr))"
proof -
  note W = unat_REPLAY_WINDOW_SIZE [OF small]
  let ?in = "map (\<lambda>(now, p). (now, p, time pr)) ps"
  let ?pr = "snd (pktid_recv_seq ord texp pr ?in)"
  have len': "length (history pr) = 2 ^ ord"
    using len by (simp add: REPLAY_WINDOW_BYTES_def)
  have ext': "unat (extent pr) = 8 * 2 ^ ord"
    using ext by (simp add: W)
  have room': "unat (id_floor pr) + 8 * 2 ^ ord \<le> unat (id_recv pr)"
    using room by (simp add: W)
  from noexp have ne1: "pktid_no_expiry ord texp pr ?in"
    and ne2: "\<not> time_after_eq now' (expire ?pr)"
    by (simp_all add: pktid_no_expiry_append)
  have sub: "snd ` set ps \<subseteq> pktid_window_ids ord pr"
    using perm by simp
  note seq = window_seq [OF small len' ext' room' dist sub ne1]
  from seq have results: "fst (pktid_recv_seq ord texp pr ?in) =
      map (\<lambda>(now, p). if pktid_seen ord pr p then Inl OVPN_ERR_PKTID_REPLAY else Inr ()) ps"
    by (rule conjunct1)
  from seq have st: "length (history ?pr) = 2 ^ ord" "extent ?pr = extent pr"
    "id_recv ?pr = id_recv pr" "id_floor ?pr = id_floor pr" "time ?pr = time pr"
    by simp_all
  from seq x perm have seen: "pktid_seen ord ?pr x"
    by simp
  from small x obtain j where j: "j < 8 * 2 ^ ord" and xj: "x = id_recv ?pr - of_nat j"
    unfolding st(3) [symmetric] by (rule window_idsE [where pr = pr]) (simp add: st)
  have "fst (ovpn_pktid_recv_unlocked ord texp ?pr now' x (time ?pr)) =
          (if pktid_seen ord ?pr x then Inl OVPN_ERR_PKTID_REPLAY else Inr ())"
    using backtrack_step(1,2) [OF small st(1) _ _ ne2 xj j, of texp] ext' room'
    by (simp add: st)
  with seen have "fst (ovpn_pktid_recv_unlocked ord texp ?pr now' x (time pr)) =
      Inl OVPN_ERR_PKTID_REPLAY"
    by (simp add: st)
  moreover have "pktid_seen ord pr (id_recv pr)"
    if "pr = snd (pktid_recv_seq ord texp (ovpn_pktid_recv_init ord) qs)"
  proof -
    have "extent pr \<noteq> 0"
      using ext' by (auto simp add: unat_eq_0 [symmetric])
    with top_id_seen_reached [OF small, of texp qs] show ?thesis
      unfolding that [symmetric] by simp
  qed
  ultimately show ?thesis
    using results by simp
qed


lemma pktid_exactI:
  assumes "length (history pr) = 2 ^ ord"
    and "unat (extent pr) \<le> 8 * 2 ^ ord"
    and "unat (id_recv pr) \<le> lo + unat (extent pr)"
    and "\<And>q. q \<in> S \<Longrightarrow> q \<noteq> 0 \<and> q \<le> id_recv pr"
    and "\<And>j. j < unat (extent pr) \<Longrightarrow> j < unat (id_recv pr) \<Longrightarrow>
           hist_test (history pr) (unat (REPLAY_INDEX ord (base pr) (of_nat j))) =
             (id_recv pr - of_nat j \<in> S)"
    and "ord \<le> 28"
  shows "pktid_exact ord pr S lo"
  using assms
  by (simp add: pktid_exact_def REPLAY_WINDOW_BYTES_def word_le_nat_alt
        unat_REPLAY_WINDOW_SIZE)

lemma pktid_exactD:
  assumes "pktid_exact ord pr S lo" and "ord \<le> 28"
  shows "length (history pr) = 2 ^ ord"
    and "unat (extent pr) \<le> 8 * 2 ^ ord"
    and "unat (id_recv pr) \<le> lo + unat (extent pr)"
    and "\<And>q. q \<in> S \<Longrightarrow> q \<noteq> 0 \<and> q \<le> id_recv pr"
    and "\<And>j. j < unat (extent pr) \<Longrightarrow> j < unat (id_recv pr) \<Longrightarrow>
           hist_test (history pr) (unat (REPLAY_INDEX ord (base pr) (of_nat j))) =
             (id_recv pr - of_nat j \<in> S)"
  using assms
  by (simp_all add: pktid_exact_def REPLAY_WINDOW_BYTES_def word_le_nat_alt
        unat_REPLAY_WINDOW_SIZE)

lemma REPLAY_INDEX_eq_iff:
  assumes "ord \<le> 28" and "unat x < 8 * 2 ^ ord" and "unat y < 8 * 2 ^ ord"
  shows "(unat (REPLAY_INDEX ord b x) = unat (REPLAY_INDEX ord b y)) = (x = y)"
proof
  assume "unat (REPLAY_INDEX ord b x) = unat (REPLAY_INDEX ord b y)"
  then have "REPLAY_INDEX ord b x = REPLAY_INDEX ord b y"
    by (simp only: word_unat_eq_iff)
  with assms show "x = y" by (rule REPLAY_INDEX_inj)
next
  assume "x = y"
  then show "unat (REPLAY_INDEX ord b x) = unat (REPLAY_INDEX ord b y)" by simp
qed

lemma exact_jump_near:
  assumes small: "ord \<le> 28" and ex: "pktid_exact ord pr S lo"
    and fwd: "id_recv pr < p" and near: "p - id_recv pr < REPLAY_WINDOW_SIZE ord"
    and top: "unat p \<le> lo + 8 * 2 ^ ord"
  shows "pktid_exact ord (pktid_jump ord pr p) (insert p S) lo"
proof -
  let ?W = "8 * 2 ^ ord :: nat"
  let ?d = "p - id_recv pr"
  let ?b = "REPLAY_INDEX ord (base pr) (- ?d)"
  let ?h1 = "hist_set (history pr) (unat ?b)"
  let ?h = "clear_skipped ord ?b 1 ?d ?h1"
  let ?e = "extent pr + ?d"
  let ?e' = "if REPLAY_WINDOW_SIZE ord < ?e then REPLAY_WINDOW_SIZE ord else ?e"
  note W = unat_REPLAY_WINDOW_SIZE [OF small]
  note len = pktid_exactD(1) [OF ex small] and ext = pktid_exactD(2) [OF ex small]
    and cover = pktid_exactD(3) [OF ex small] and below = pktid_exactD(4) [OF ex small]
    and bits = pktid_exactD(5) [OF ex small]
  have le: "id_recv pr \<le> p" using fwd by simp
  have d: "unat ?d = unat p - unat (id_recv pr)"
    using le by (simp add: unat_sub)
  have idp: "unat (id_recv pr) < unat p"
    using fwd by (simp add: word_less_nat_alt)
  have dW: "unat ?d < ?W"
    using near by (simp add: word_less_nat_alt W)
  have e: "unat ?e = unat (extent pr) + unat ?d"
  proof -
    have "unat (extent pr) + unat ?d < 2 ^ 32"
      using ext dW window_le_word [OF small] by simp
    then show ?thesis by (simp add: unat_word_ariths)
  qed
  have e': "unat ?e' = min ?W (unat (extent pr) + unat ?d)"
    using e by (auto simp add: word_less_nat_alt W)
  have fields: "base (pktid_jump ord pr p) = ?b" "history (pktid_jump ord pr p) = ?h"
    "extent (pktid_jump ord pr p) = ?e'" "id_recv (pktid_jump ord pr p) = p"
    using near by (simp_all add: pktid_jump_def Let_def)
  have len1: "length ?h1 = 2 ^ ord" using len by simp
  have bW: "unat ?b < 8 * length (history pr)"
    using REPLAY_INDEX_less [OF small, of "base pr" "- ?d"] len by simp
  show ?thesis
  proof (rule pktid_exactI [OF _ _ _ _ _ small])
    show "length (history (pktid_jump ord pr p)) = 2 ^ ord"
      using len by (simp add: fields)
    show "unat (extent (pktid_jump ord pr p)) \<le> 8 * 2 ^ ord"
      unfolding fields e' by simp
    show "unat (id_recv (pktid_jump ord pr p)) \<le> lo + unat (extent (pktid_jump ord pr p))"
      unfolding fields e' using top cover d idp by simp
  next
    fix q assume "q \<in> insert p S"
    then show "q \<noteq> 0 \<and> q \<le> id_recv (pktid_jump ord pr p)"
    proof
      assume "q = p"
      with idp show ?thesis by (auto simp add: fields)
    next
      assume "q \<in> S"
      with below [of q] le show ?thesis by (auto simp add: fields)
    qed
  next
    fix j
    assume "j < unat (extent (pktid_jump ord pr p))" and "j < unat (id_recv (pktid_jump ord pr p))"
    then have j: "j < ?W" "j < unat (extent pr) + unat ?d" "j < unat p"
      unfolding fields e' by simp_all
    let ?q = "unat (REPLAY_INDEX ord ?b (of_nat j))"
    have uj: "unat (of_nat j :: u32) = j"
      using j(1) by (rule unat_of_nat_window [OF small])
    have cleared: "hist_test ?h ?q =
        (hist_test ?h1 ?q \<and> \<not> (\<exists>k. 1 \<le> k \<and> k < ?d \<and> ?q = unat (REPLAY_INDEX ord ?b k)))"
      by (rule hist_test_clear_skipped [OF small len1])
    have set1: "hist_test ?h1 ?q = (?q = unat ?b \<or> hist_test (history pr) ?q)"
      using bW by (rule hist_test_set)
    have hit: "(\<exists>k. 1 \<le> k \<and> k < ?d \<and> ?q = unat (REPLAY_INDEX ord ?b k)) = (0 < j \<and> j < unat ?d)"
    proof
      assume "\<exists>k. 1 \<le> k \<and> k < ?d \<and> ?q = unat (REPLAY_INDEX ord ?b k)"
      then obtain k where k: "1 \<le> k" "k < ?d" "?q = unat (REPLAY_INDEX ord ?b k)" by blast
      have "unat k < ?W" using k(2) dW by (simp add: word_less_nat_alt)
      with k(3) have "of_nat j = k"
        using REPLAY_INDEX_eq_iff [OF small, of "of_nat j" k ?b] uj j(1) by simp
      with k(1,2) uj show "0 < j \<and> j < unat ?d"
        by (auto simp add: word_less_nat_alt word_le_nat_alt)
    next
      assume "0 < j \<and> j < unat ?d"
      then have "(1 :: u32) \<le> of_nat j" "(of_nat j :: u32) < ?d"
        using uj by (simp_all add: word_le_nat_alt word_less_nat_alt)
      then show "\<exists>k. 1 \<le> k \<and> k < ?d \<and> ?q = unat (REPLAY_INDEX ord ?b k)" by blast
    qed
    have up: "unat (p - of_nat j) = unat p - j"
      using j(3) uj by (simp add: unat_sub word_le_nat_alt)
    show "hist_test (history (pktid_jump ord pr p))
            (unat (REPLAY_INDEX ord (base (pktid_jump ord pr p)) (of_nat j))) =
          (id_recv (pktid_jump ord pr p) - of_nat j \<in> insert p S)"
    proof (cases "j = 0")
      case True
      then have "?q = unat ?b" by (simp add: REPLAY_INDEX_zero [OF small])
      with True show ?thesis
        unfolding fields cleared set1 hit by simp
    next
      case False
      then have jpos: "0 < j" by simp
      have nb: "?q \<noteq> unat ?b"
        using jpos j(1) by (rule REPLAY_INDEX_base_distinct [OF small])
      have "unat (p - of_nat j) \<noteq> unat p"
        using up jpos j(3) by simp
      then have np: "p - of_nat j \<noteq> p"
        by auto
      show ?thesis
      proof (cases "j < unat ?d")
        case True
        have "\<not> p - of_nat j \<le> id_recv pr"
          using up True d idp by (simp add: word_le_nat_alt)
        with below [of "p - of_nat j"] have "p - of_nat j \<notin> S" by blast
        with np True jpos show ?thesis
          unfolding fields cleared hit by simp
      next
        case False
        then have far: "unat ?d \<le> j" by simp
        have shift: "(of_nat (j - unat ?d) :: u32) = - ?d + of_nat j"
          using far by (simp add: of_nat_diff)
        have old: "REPLAY_INDEX ord ?b (of_nat j) =
            REPLAY_INDEX ord (base pr) (of_nat (j - unat ?d))"
          unfolding shift by (rule REPLAY_INDEX_add [OF small])
        have same: "id_recv pr - of_nat (j - unat ?d) = p - of_nat j"
          unfolding shift by simp
        have "hist_test (history pr) (unat (REPLAY_INDEX ord (base pr) (of_nat (j - unat ?d)))) =
            (id_recv pr - of_nat (j - unat ?d) \<in> S)"
          using j(2,3) far d idp by (intro bits) simp_all
        then have "hist_test (history pr) ?q = (p - of_nat j \<in> S)"
          unfolding old same .
        with nb np False show ?thesis
          unfolding fields cleared set1 hit by simp
      qed
    qed
  qed
qed

lemma exact_jump_far:
  assumes small: "ord \<le> 28" and ex: "pktid_exact ord pr S lo"
    and fwd: "id_recv pr < p" and far: "\<not> p - id_recv pr < REPLAY_WINDOW_SIZE ord"
    and top: "unat p \<le> lo + 8 * 2 ^ ord"
  shows "pktid_exact ord (pktid_jump ord pr p) (insert p S) lo"
proof -
  let ?W = "8 * 2 ^ ord :: nat"
  note W = unat_REPLAY_WINDOW_SIZE [OF small]
  note below = pktid_exactD(4) [OF ex small]
  have le: "id_recv pr \<le> p" using fwd by simp
  have d: "unat (p - id_recv pr) = unat p - unat (id_recv pr)"
    using le by (simp add: unat_sub)
  have idp: "unat (id_recv pr) < unat p"
    using fwd by (simp add: word_less_nat_alt)
  have dW: "?W \<le> unat p - unat (id_recv pr)"
    using far d by (simp add: word_less_nat_alt W)
  have fields: "base (pktid_jump ord pr p) = 0"
    "history (pktid_jump ord pr p) = (replicate (2 ^ ord) 0)[0 := 1]"
    "extent (pktid_jump ord pr p) = REPLAY_WINDOW_SIZE ord" "id_recv (pktid_jump ord pr p) = p"
    using far by (simp_all add: pktid_jump_def Let_def REPLAY_WINDOW_BYTES_def)
  show ?thesis
  proof (rule pktid_exactI [OF _ _ _ _ _ small])
    show "length (history (pktid_jump ord pr p)) = 2 ^ ord"
      by (simp add: fields)
    show "unat (extent (pktid_jump ord pr p)) \<le> 8 * 2 ^ ord"
      by (simp add: fields W)
    show "unat (id_recv (pktid_jump ord pr p)) \<le> lo + unat (extent (pktid_jump ord pr p))"
      using top by (simp add: fields W)
  next
    fix q assume "q \<in> insert p S"
    then show "q \<noteq> 0 \<and> q \<le> id_recv (pktid_jump ord pr p)"
    proof
      assume "q = p"
      with idp show ?thesis by (auto simp add: fields)
    next
      assume "q \<in> S"
      with below [of q] le show ?thesis by (auto simp add: fields)
    qed
  next
    fix j
    assume "j < unat (extent (pktid_jump ord pr p))" and "j < unat (id_recv (pktid_jump ord pr p))"
    then have j: "j < ?W" "j < unat p"
      unfolding fields W by simp_all
    have uj: "unat (of_nat j :: u32) = j"
      using j(1) by (rule unat_of_nat_window [OF small])
    have idx: "unat (REPLAY_INDEX ord 0 (of_nat j)) = j"
      using j(1) by (simp add: unat_REPLAY_INDEX [OF small] uj)
    have fresh: "hist_test ((replicate (2 ^ ord) (0 :: u8))[0 := 1]) j = (j = 0)"
      using j(1) by (simp add: hist_test_fresh)
    have up: "unat (p - of_nat j) = unat p - j"
      using j(2) uj by (simp add: unat_sub word_le_nat_alt)
    have "(p - of_nat j \<in> insert p S) = (j = 0)"
    proof (cases "j = 0")
      case True
      then show ?thesis by simp
    next
      case False
      then have "unat (p - of_nat j) \<noteq> unat p"
        using up j(2) by simp
      then have np: "p - of_nat j \<noteq> p" by auto
      have "\<not> p - of_nat j \<le> id_recv pr"
        using up j(1) dW by (simp add: word_le_nat_alt)
      with below [of "p - of_nat j"] have "p - of_nat j \<notin> S" by blast
      with np False show ?thesis by simp
    qed
    then show "hist_test (history (pktid_jump ord pr p))
            (unat (REPLAY_INDEX ord (base (pktid_jump ord pr p)) (of_nat j))) =
          (id_recv (pktid_jump ord pr p) - of_nat j \<in> insert p S)"
      by (simp add: fields idx fresh)
  qed
qed

lemma exact_backtrack_index:
  assumes small: "ord \<le> 28" and ex: "pktid_exact ord pr S lo"
    and nz: "p \<noteq> 0" and le: "p \<le> id_recv pr" and lo: "lo < unat p"
  shows "id_recv pr - p < extent pr"
    and "hist_test (history pr) (unat (REPLAY_INDEX ord (base pr) (id_recv pr - p))) = (p \<in> S)"
proof -
  note cover = pktid_exactD(3) [OF ex small] and bits = pktid_exactD(5) [OF ex small]
  let ?d = "id_recv pr - p"
  have d: "unat ?d = unat (id_recv pr) - unat p"
    using le by (simp add: unat_sub)
  have pid: "unat p \<le> unat (id_recv pr)" using le by (simp add: word_le_nat_alt)
  have ppos: "0 < unat p" using nz by (simp add: unat_gt_0)
  have dext: "unat ?d < unat (extent pr)"
    using d cover lo pid by simp
  then show "?d < extent pr" by (simp add: word_less_nat_alt)
  have did: "unat ?d < unat (id_recv pr)"
    using d pid ppos by simp
  have conv: "(of_nat (unat ?d) :: u32) = ?d" by simp
  from bits [OF dext did] show
    "hist_test (history pr) (unat (REPLAY_INDEX ord (base pr) ?d)) = (p \<in> S)"
    unfolding conv by simp
qed

lemma exact_backtrack:
  assumes small: "ord \<le> 28" and ex: "pktid_exact ord pr S lo"
    and new: "p \<notin> S" and nz: "p \<noteq> 0" and le: "p \<le> id_recv pr" and lo: "lo < unat p"
    and floor: "id_floor pr < p"
  shows "fst (pktid_backtrack ord texp pr now p) = Inr ()"
    and "pktid_exact ord (snd (pktid_backtrack ord texp pr now p)) (insert p S) lo"
proof -
  let ?d = "id_recv pr - p"
  let ?ri = "unat (REPLAY_INDEX ord (base pr) ?d)"
  let ?r = "pktid_backtrack ord texp pr now p"
  note len = pktid_exactD(1) [OF ex small] and ext = pktid_exactD(2) [OF ex small]
    and cover = pktid_exactD(3) [OF ex small] and below = pktid_exactD(4) [OF ex small]
    and bits = pktid_exactD(5) [OF ex small]
  note idx = exact_backtrack_index [OF small ex nz le lo]
  from idx new have clear: "\<not> hist_test (history pr) ?ri" by simp
  with idx(1) floor show ok: "fst ?r = Inr ()"
    by (simp add: pktid_backtrack_def Let_def)
  from idx(1) floor clear have h: "history (snd ?r) = hist_set (history pr) ?ri"
    by (simp add: pktid_backtrack_def Let_def)
  have dW: "unat ?d < 8 * 2 ^ ord"
    using idx(1) ext by (simp add: word_less_nat_alt)
  show "pktid_exact ord (snd ?r) (insert p S) lo"
  proof (rule pktid_exactI [OF _ _ _ _ _ small])
    show "length (history (snd ?r)) = 2 ^ ord"
      using len by (simp add: backtrack_fields)
    show "unat (extent (snd ?r)) \<le> 8 * 2 ^ ord"
      using ext by (simp add: backtrack_fields)
    show "unat (id_recv (snd ?r)) \<le> lo + unat (extent (snd ?r))"
      using cover by (simp add: backtrack_fields)
  next
    fix q assume "q \<in> insert p S"
    with below [of q] nz le show "q \<noteq> 0 \<and> q \<le> id_recv (snd ?r)"
      by (auto simp add: backtrack_fields)
  next
    fix j
    assume "j < unat (extent (snd ?r))" and "j < unat (id_recv (snd ?r))"
    then have j: "j < unat (extent pr)" "j < unat (id_recv pr)"
      by (simp_all add: backtrack_fields)
    have jW: "j < 8 * 2 ^ ord" using j(1) ext by simp
    have uj: "unat (of_nat j :: u32) = j"
      using jW by (rule unat_of_nat_window [OF small])
    let ?q = "unat (REPLAY_INDEX ord (base pr) (of_nat j))"
    have "?ri < 8 * length (history pr)"
      using REPLAY_INDEX_less [OF small, of "base pr" ?d] len by simp
    then have "hist_test (hist_set (history pr) ?ri) ?q = (?q = ?ri \<or> hist_test (history pr) ?q)"
      by (rule hist_test_set)
    moreover have "(?q = ?ri) = (of_nat j = ?d)"
      using uj jW dW by (intro REPLAY_INDEX_eq_iff [OF small]) simp_all
    moreover have "(of_nat j = ?d) = (id_recv pr - of_nat j = p)"
      by auto
    moreover note bits [OF j]
    ultimately show "hist_test (history (snd ?r))
            (unat (REPLAY_INDEX ord (base (snd ?r)) (of_nat j))) =
          (id_recv (snd ?r) - of_nat j \<in> insert p S)"
      by (simp add: backtrack_fields h)
  qed
qed

lemma exact_replay:
  assumes small: "ord \<le> 28" and ex: "pktid_exact ord pr S lo"
    and old: "p \<in> S" and lo: "lo < unat p" and floor: "id_floor pr < p"
  shows "fst (pktid_window ord texp pr now p) = Inl OVPN_ERR_PKTID_REPLAY"
proof -
  from pktid_exactD(4) [OF ex small old] have nz: "p \<noteq> 0" and le: "p \<le> id_recv pr"
    by simp_all
  note idx = exact_backtrack_index [OF small ex nz le lo]
  have not_next: "p \<noteq> id_recv pr + 1"
  proof
    assume "p = id_recv pr + 1"
    with nz have "unat p = unat (id_recv pr) + 1" by (simp add: unat_word_succ)
    with le show False by (simp add: word_le_nat_alt)
  qed
  have not_fwd: "\<not> id_recv pr < p" using le by simp
  from idx old floor have "fst (pktid_backtrack ord texp pr now p) = Inl OVPN_ERR_PKTID_REPLAY"
    by (simp add: pktid_backtrack_def Let_def)
  with not_next not_fwd show ?thesis
    by (simp add: pktid_window_def)
qed

lemma exact_window:
  assumes small: "ord \<le> 28" and ex: "pktid_exact ord pr S lo"
    and new: "p \<notin> S" and lo: "lo < unat p" and top: "unat p \<le> lo + 8 * 2 ^ ord"
    and floor: "id_floor pr < p"
  shows "fst (pktid_window ord texp pr now p) = Inr ()"
    and "pktid_exact ord (snd (pktid_window ord texp pr now p)) (insert p S) lo"
    and "id_floor (snd (pktid_window ord texp pr now p)) = id_floor pr"
    and "time (snd (pktid_window ord texp pr now p)) = time pr"
proof -
  have nz: "p \<noteq> 0" using lo by auto
  have frame: "pktid_exact ord (s\<lparr>expire := x\<rparr>) T lo = pktid_exact ord s T lo" for s x T
    by (simp add: pktid_exact_def)
  have ext: "extent pr \<le> REPLAY_WINDOW_SIZE ord"
    using ex by (simp add: pktid_exact_def)
  have "fst (pktid_window ord texp pr now p) = Inr () \<and>
        pktid_exact ord (snd (pktid_window ord texp pr now p)) (insert p S) lo"
  proof (cases "p = id_recv pr + 1")
    case True
    have "unat p = unat (id_recv pr) + 1"
      using nz True by (simp add: unat_word_succ)
    then have fwd: "id_recv pr < p" by (simp add: word_less_nat_alt)
    have near: "p - id_recv pr < REPLAY_WINDOW_SIZE ord"
      using True window_word_gt_1 [OF small] by simp
    have "pktid_exact ord (pktid_advance ord pr p) (insert p S) lo"
      unfolding advance_is_jump [OF small ext True]
      by (rule exact_jump_near [OF small ex fwd near top])
    with True show ?thesis
      by (simp add: pktid_window_def frame)
  next
    case not_next: False
    show ?thesis
    proof (cases "id_recv pr < p")
      case True
      have "pktid_exact ord (pktid_jump ord pr p) (insert p S) lo"
      proof (cases "p - id_recv pr < REPLAY_WINDOW_SIZE ord")
        case True
        with small ex \<open>id_recv pr < p\<close> show ?thesis
          using top by (intro exact_jump_near)
      next
        case False
        with small ex \<open>id_recv pr < p\<close> show ?thesis
          using top by (intro exact_jump_far)
      qed
      with True not_next show ?thesis
        by (simp add: pktid_window_def frame)
    next
      case False
      then have le: "p \<le> id_recv pr" by simp
      from exact_backtrack [OF small ex new nz le lo floor, of texp now] False not_next
      show ?thesis
        by (simp add: pktid_window_def)
    qed
  qed
  then show "fst (pktid_window ord texp pr now p) = Inr ()"
    and "pktid_exact ord (snd (pktid_window ord texp pr now p)) (insert p S) lo"
    by simp_all
  show "id_floor (snd (pktid_window ord texp pr now p)) = id_floor pr"
    by (simp add: pktid_window_def backtrack_fields)
  show "time (snd (pktid_window ord texp pr now p)) = time pr"
    by (simp add: pktid_window_def backtrack_fields)
qed

lemma recv_same_epoch:
  assumes "\<not> time_after_eq now (expire pr)" and "p \<noteq> 0"
  shows "ovpn_pktid_recv_unlocked ord texp pr now p (time pr) = pktid_window ord texp pr now p"
  using assms by (simp add: ovpn_pktid_recv_unlocked_def Let_def not_expired_floor)

lemma exact_seq:
  assumes small: "ord \<le> 28"
  shows "pktid_exact ord pr S lo \<Longrightarrow> unat (id_floor pr) \<le> lo \<Longrightarrow>
    distinct (map snd ps) \<Longrightarrow> snd ` set ps \<inter> S = {} \<Longrightarrow>
    (\<forall>p \<in> snd ` set ps. lo < unat p \<and> unat p \<le> lo + 8 * 2 ^ ord) \<Longrightarrow>
    pktid_no_expiry ord texp pr (map (\<lambda>(now, p). (now, p, time pr)) ps) \<Longrightarrow>
    fst (pktid_recv_seq ord texp pr (map (\<lambda>(now, p). (now, p, time pr)) ps)) =
      replicate (length ps) (Inr ()) \<and>
    pktid_exact ord (snd (pktid_recv_seq ord texp pr (map (\<lambda>(now, p). (now, p, time pr)) ps)))
      (S \<union> snd ` set ps) lo \<and>
    id_floor (snd (pktid_recv_seq ord texp pr (map (\<lambda>(now, p). (now, p, time pr)) ps)))
      = id_floor pr \<and>
    time (snd (pktid_recv_seq ord texp pr (map (\<lambda>(now, p). (now, p, time pr)) ps))) = time pr"
proof (induction ps arbitrary: pr S)
  case Nil
  then show ?case by simp
next
  case (Cons x ps)
  obtain now p where x: "x = (now, p)" by (cases x)
  let ?pr = "snd (pktid_window ord texp pr now p)"
  let ?in = "\<lambda>pr. map (\<lambda>(now, p). (now, p, time pr)) ps"
  note ex = Cons.prems(1) and fl = Cons.prems(2)
  from Cons.prems(4) have new: "p \<notin> S" and disj: "snd ` set ps \<inter> S = {}"
    by (auto simp add: x)
  from Cons.prems(5) have lo: "lo < unat p" and top: "unat p \<le> lo + 8 * 2 ^ ord"
    and range: "\<forall>p \<in> snd ` set ps. lo < unat p \<and> unat p \<le> lo + 8 * 2 ^ ord"
    by (simp_all add: x)
  from Cons.prems(3) have dist: "distinct (map snd ps)" and notin: "p \<notin> snd ` set ps"
    by (simp_all add: x)
  from Cons.prems(6) have fresh: "\<not> time_after_eq now (expire pr)"
    by (simp add: x)
  have nz: "p \<noteq> 0" using lo by auto
  have floor: "id_floor pr < p"
    using fl lo by (simp add: word_less_nat_alt)
  note call = recv_same_epoch [OF fresh nz, of ord texp]
  note step = exact_window [OF small ex new lo top floor, of texp now]
  from Cons.prems(6) have noexp: "pktid_no_expiry ord texp ?pr (?in ?pr)"
    by (simp add: x call step(4))
  have "snd ` set ps \<inter> insert p S = {}"
    using disj notin by auto
  with step(2) have IH: "fst (pktid_recv_seq ord texp ?pr (?in ?pr)) =
      replicate (length ps) (Inr ()) \<and>
    pktid_exact ord (snd (pktid_recv_seq ord texp ?pr (?in ?pr))) (insert p S \<union> snd ` set ps) lo \<and>
    id_floor (snd (pktid_recv_seq ord texp ?pr (?in ?pr))) = id_floor ?pr \<and>
    time (snd (pktid_recv_seq ord texp ?pr (?in ?pr))) = time ?pr"
    using fl dist range noexp by (intro Cons.IH) (simp_all add: step(3))
  have unfold: "pktid_recv_seq ord texp pr (map (\<lambda>(now, p). (now, p, time pr)) (x # ps)) =
      (fst (pktid_window ord texp pr now p) # fst (pktid_recv_seq ord texp ?pr (?in ?pr)),
       snd (pktid_recv_seq ord texp ?pr (?in ?pr)))"
    by (simp add: x call step(4) split_def Let_def)
  have sets: "insert p S \<union> snd ` set ps = S \<union> snd ` set (x # ps)"
    by (auto simp add: x)
  show ?case
    unfolding unfold sets [symmetric] using IH step(1,3,4) by simp
qed

lemma exact_empty:
  assumes "length (history pr) = 2 ^ ord" and "extent pr = 0" and "id_recv pr = 0"
  shows "pktid_exact ord pr {} lo"
  using assms by (simp add: pktid_exact_def REPLAY_WINDOW_BYTES_def)

lemma first_call:
  assumes small: "ord \<le> 28" and len: "length (history pr) = 2 ^ ord"
    and fresh: "time pr < e \<or> (time pr = e \<and> extent pr = 0 \<and> id_recv pr = 0 \<and> id_floor pr = 0)"
    and lo: "lo < unat p" and top: "unat p \<le> lo + 8 * 2 ^ ord"
  shows "fst (ovpn_pktid_recv_unlocked ord texp pr now p e) = Inr ()"
    and "pktid_exact ord (snd (ovpn_pktid_recv_unlocked ord texp pr now p e)) {p} lo"
    and "id_floor (snd (ovpn_pktid_recv_unlocked ord texp pr now p e)) = 0"
    and "time (snd (ovpn_pktid_recv_unlocked ord texp pr now p e)) = e"
proof -
  have nz: "p \<noteq> 0" using lo by auto
  have pos: "0 < p" using nz by (simp add: word_greater_zero_iff)
  have "\<exists>s. ovpn_pktid_recv_unlocked ord texp pr now p e = pktid_window ord texp s now p \<and>
          pktid_exact ord s {} lo \<and> id_floor s = 0 \<and> time s = e"
  proof (cases "time pr < e")
    case True
    let ?s = "pktid_time_reset (pktid_expire_floor pr now) e"
    from True have "e \<noteq> time pr" by auto
    with True nz have "ovpn_pktid_recv_unlocked ord texp pr now p e = pktid_window ord texp ?s now p"
      by (simp add: ovpn_pktid_recv_unlocked_def Let_def)
    moreover have "pktid_exact ord ?s {} lo"
      using len by (intro exact_empty) simp_all
    ultimately show ?thesis by (intro exI [of _ ?s]) simp
  next
    case False
    let ?s = "pktid_expire_floor pr now"
    from False fresh have init: "time pr = e" "extent pr = 0" "id_recv pr = 0" "id_floor pr = 0"
      by simp_all
    with nz have "ovpn_pktid_recv_unlocked ord texp pr now p e = pktid_window ord texp ?s now p"
      by (simp add: ovpn_pktid_recv_unlocked_def Let_def)
    moreover have "pktid_exact ord ?s {} lo"
      using len init by (intro exact_empty) simp_all
    ultimately show ?thesis using init by (intro exI [of _ ?s]) simp
  qed
  then obtain s where s: "ovpn_pktid_recv_unlocked ord texp pr now p e = pktid_window ord texp s now p"
    "pktid_exact ord s {} lo" "id_floor s = 0" "time s = e"
    by blast
  have floor: "id_floor s < p" using s(3) pos by simp
  have new: "p \<notin> {}" by simp
  note step = exact_window [OF small s(2) new lo top floor, of texp now]
  show "fst (ovpn_pktid_recv_unlocked ord texp pr now p e) = Inr ()"
    unfolding s(1) by (rule step(1))
  show "pktid_exact ord (snd (ovpn_pktid_recv_unlocked ord texp pr now p e)) {p} lo"
    unfolding s(1) by (rule step(2))
  show "id_floor (snd (ovpn_pktid_recv_unlocked ord texp pr now p e)) = 0"
    unfolding s(1) using step(3) s(3) by simp
  show "time (snd (ovpn_pktid_recv_unlocked ord texp pr now p e)) = e"
    unfolding s(1) using step(4) s(4) by simp
qed

lemma fresh_window_accept:
  assumes small: "ord \<le> 28"
    and len: "length (history pr) = REPLAY_WINDOW_BYTES ord"
    and fresh: "time pr < e \<or> (time pr = e \<and> extent pr = 0 \<and> id_recv pr = 0 \<and> id_floor pr = 0)"
    and dist: "distinct (p0 # map snd ps)"
    and range: "\<forall>p \<in> insert p0 (snd ` set ps).
                  lo < unat p \<and> unat p \<le> lo + unat (REPLAY_WINDOW_SIZE ord)"
    and noexp: "pktid_no_expiry ord texp (snd (ovpn_pktid_recv_unlocked ord texp pr now0 p0 e))
                  (map (\<lambda>(now, p). (now, p, e)) ps @ [(now', x, e)])"
    and x: "x \<in> insert p0 (snd ` set ps)"
  shows "fst (pktid_recv_seq ord texp pr ((now0, p0, e) # map (\<lambda>(now, p). (now, p, e)) ps)) =
           replicate (Suc (length ps)) (Inr ()) \<and>
         fst (ovpn_pktid_recv_unlocked ord texp
                (snd (pktid_recv_seq ord texp pr
                        ((now0, p0, e) # map (\<lambda>(now, p). (now, p, e)) ps)))
                now' x e) = Inl OVPN_ERR_PKTID_REPLAY"
proof -
  note W = unat_REPLAY_WINDOW_SIZE [OF small]
  let ?pr1 = "snd (ovpn_pktid_recv_unlocked ord texp pr now0 p0 e)"
  let ?in = "map (\<lambda>(now, p). (now, p, e)) ps"
  let ?pr = "snd (pktid_recv_seq ord texp ?pr1 ?in)"
  have len': "length (history pr) = 2 ^ ord"
    using len by (simp add: REPLAY_WINDOW_BYTES_def)
  from range have r0: "lo < unat p0" "unat p0 \<le> lo + 8 * 2 ^ ord"
    and rs: "\<forall>p \<in> snd ` set ps. lo < unat p \<and> unat p \<le> lo + 8 * 2 ^ ord"
    by (simp_all add: W)
  note first = first_call [OF small len' fresh r0, of texp now0]
  from noexp have ne1: "pktid_no_expiry ord texp ?pr1 ?in"
    and ne2: "\<not> time_after_eq now' (expire ?pr)"
    by (simp_all add: pktid_no_expiry_append)
  have in_eq: "?in = map (\<lambda>(now, p). (now, p, time ?pr1)) ps"
    by (simp add: first(4))
  from dist have d: "distinct (map snd ps)" and disj: "snd ` set ps \<inter> {p0} = {}"
    by auto
  have fl: "unat (id_floor ?pr1) \<le> lo" by (simp add: first(3))
  from ne1 have ne1': "pktid_no_expiry ord texp ?pr1 (map (\<lambda>(now, p). (now, p, time ?pr1)) ps)"
    by (simp only: in_eq [symmetric])
  note seq = exact_seq [OF small first(2) fl d disj rs ne1', folded in_eq]
  from seq have results: "fst (pktid_recv_seq ord texp ?pr1 ?in) = replicate (length ps) (Inr ())"
    and ex: "pktid_exact ord ?pr ({p0} \<union> snd ` set ps) lo"
    and floor0: "id_floor ?pr = 0" and tm: "time ?pr = e"
    by (simp_all add: first(3,4))
  have all: "fst (pktid_recv_seq ord texp pr ((now0, p0, e) # ?in)) =
      replicate (Suc (length ps)) (Inr ())"
    by (simp add: pktid_recv_seq_Cons first(1) results del: pktid_recv_seq.simps)
  have fin: "snd (pktid_recv_seq ord texp pr ((now0, p0, e) # ?in)) = ?pr"
    by (simp add: pktid_recv_seq_Cons del: pktid_recv_seq.simps)
  from x range have xlo: "lo < unat x" by blast
  then have xnz: "x \<noteq> 0" by auto
  then have xfl: "id_floor ?pr < x" by (simp add: floor0 word_greater_zero_iff)
  from x have xin: "x \<in> {p0} \<union> snd ` set ps" by simp
  have "ovpn_pktid_recv_unlocked ord texp ?pr now' x (time ?pr) = pktid_window ord texp ?pr now' x"
    using ne2 xnz by (rule recv_same_epoch)
  with exact_replay [OF small ex xin xlo xfl, of texp now']
  have "fst (ovpn_pktid_recv_unlocked ord texp ?pr now' x e) = Inl OVPN_ERR_PKTID_REPLAY"
    by (simp add: tm)
  with all show ?thesis
    unfolding fin by simp
qed

text \<open>
  Claim C1, as amended. The ids are presented at one epoch, and no call after the first
  finds the deadline passed.

  From a fresh window (the initial state, or any state when the epoch presented is newer
  than the stored one) every id of a sequence of distinct ids drawn from \<open>W\<close>
  consecutive ids \<open>lo + 1, \<dots>, lo + W\<close> is accepted, in whatever order they come, and
  any of them that is presented again afterwards is rejected with
  \<open>OVPN_ERR_PKTID_REPLAY\<close>.

  From a state with top id \<open>id\<close> whose window is full (\<open>extent = W\<close>) and whose floor
  is below \<open>id - W + 1\<close>, a permutation of \<open>id - W + 1, \<dots>, id\<close> has accepted exactly
  the ids whose bit in the history is clear; the ids whose bit is set are rejected
  with \<open>OVPN_ERR_PKTID_REPLAY\<close>, and so is every id of the window that is presented
  again after the permutation. In a state that the detector has reached from its initial
  state the bit of the top id itself is set.
\<close>

theorem replay_window_accept:
  assumes "ord \<le> 28" and "length (history pr) = REPLAY_WINDOW_BYTES ord"
  shows "((time pr < e \<or> (time pr = e \<and> extent pr = 0 \<and> id_recv pr = 0 \<and> id_floor pr = 0)) \<and>
          distinct (p0 # map snd ps) \<and>
          (\<forall>p \<in> insert p0 (snd ` set ps).
             lo < unat p \<and> unat p \<le> lo + unat (REPLAY_WINDOW_SIZE ord)) \<and>
          pktid_no_expiry ord texp (snd (ovpn_pktid_recv_unlocked ord texp pr now0 p0 e))
            (map (\<lambda>(now, p). (now, p, e)) ps @ [(now', x, e)]) \<and>
          x \<in> insert p0 (snd ` set ps) \<longrightarrow>
            fst (pktid_recv_seq ord texp pr ((now0, p0, e) # map (\<lambda>(now, p). (now, p, e)) ps)) =
              replicate (Suc (length ps)) (Inr ()) \<and>
            fst (ovpn_pktid_recv_unlocked ord texp
                   (snd (pktid_recv_seq ord texp pr
                           ((now0, p0, e) # map (\<lambda>(now, p). (now, p, e)) ps)))
                   now' x e) = Inl OVPN_ERR_PKTID_REPLAY) \<and>
         (extent pr = REPLAY_WINDOW_SIZE ord \<and>
          unat (id_floor pr) + unat (REPLAY_WINDOW_SIZE ord) \<le> unat (id_recv pr) \<and>
          distinct (map snd qs) \<and> snd ` set qs = pktid_window_ids ord pr \<and>
          pktid_no_expiry ord texp pr
            (map (\<lambda>(now, p). (now, p, time pr)) qs @ [(now', y, time pr)]) \<and>
          y \<in> pktid_window_ids ord pr \<longrightarrow>
            fst (pktid_recv_seq ord texp pr (map (\<lambda>(now, p). (now, p, time pr)) qs)) =
              map (\<lambda>(now, p). if pktid_seen ord pr p then Inl OVPN_ERR_PKTID_REPLAY else Inr ())
                qs \<and>
            fst (ovpn_pktid_recv_unlocked ord texp
                   (snd (pktid_recv_seq ord texp pr (map (\<lambda>(now, p). (now, p, time pr)) qs)))
                   now' y (time pr)) = Inl OVPN_ERR_PKTID_REPLAY \<and>
            (pr = snd (pktid_recv_seq ord texp (ovpn_pktid_recv_init ord) rs) \<longrightarrow>
               pktid_seen ord pr (id_recv pr)))"
proof (intro conjI impI)
  assume "(time pr < e \<or> (time pr = e \<and> extent pr = 0 \<and> id_recv pr = 0 \<and> id_floor pr = 0)) \<and>
          distinct (p0 # map snd ps) \<and>
          (\<forall>p \<in> insert p0 (snd ` set ps).
             lo < unat p \<and> unat p \<le> lo + unat (REPLAY_WINDOW_SIZE ord)) \<and>
          pktid_no_expiry ord texp (snd (ovpn_pktid_recv_unlocked ord texp pr now0 p0 e))
            (map (\<lambda>(now, p). (now, p, e)) ps @ [(now', x, e)]) \<and>
          x \<in> insert p0 (snd ` set ps)"
  then have "fst (pktid_recv_seq ord texp pr ((now0, p0, e) # map (\<lambda>(now, p). (now, p, e)) ps)) =
              replicate (Suc (length ps)) (Inr ()) \<and>
            fst (ovpn_pktid_recv_unlocked ord texp
                   (snd (pktid_recv_seq ord texp pr
                           ((now0, p0, e) # map (\<lambda>(now, p). (now, p, e)) ps)))
                   now' x e) = Inl OVPN_ERR_PKTID_REPLAY"
    by (intro fresh_window_accept [OF assms, of e p0 ps lo texp now0 now' x]) simp_all
  then show "fst (pktid_recv_seq ord texp pr ((now0, p0, e) # map (\<lambda>(now, p). (now, p, e)) ps)) =
              replicate (Suc (length ps)) (Inr ())"
    and "fst (ovpn_pktid_recv_unlocked ord texp
                   (snd (pktid_recv_seq ord texp pr
                           ((now0, p0, e) # map (\<lambda>(now, p). (now, p, e)) ps)))
                   now' x e) = Inl OVPN_ERR_PKTID_REPLAY"
    by simp_all
next
  assume "extent pr = REPLAY_WINDOW_SIZE ord \<and>
          unat (id_floor pr) + unat (REPLAY_WINDOW_SIZE ord) \<le> unat (id_recv pr) \<and>
          distinct (map snd qs) \<and> snd ` set qs = pktid_window_ids ord pr \<and>
          pktid_no_expiry ord texp pr
            (map (\<lambda>(now, p). (now, p, time pr)) qs @ [(now', y, time pr)]) \<and>
          y \<in> pktid_window_ids ord pr"
  then have full: "fst (pktid_recv_seq ord texp pr (map (\<lambda>(now, p). (now, p, time pr)) qs)) =
              map (\<lambda>(now, p). if pktid_seen ord pr p then Inl OVPN_ERR_PKTID_REPLAY else Inr ())
                qs \<and>
            fst (ovpn_pktid_recv_unlocked ord texp
                   (snd (pktid_recv_seq ord texp pr (map (\<lambda>(now, p). (now, p, time pr)) qs)))
                   now' y (time pr)) = Inl OVPN_ERR_PKTID_REPLAY \<and>
            (pr = snd (pktid_recv_seq ord texp (ovpn_pktid_recv_init ord) rs) \<longrightarrow>
               pktid_seen ord pr (id_recv pr))"
    by (intro full_window_accept [OF assms, of qs texp now' y rs]) simp_all
  from full show "fst (pktid_recv_seq ord texp pr (map (\<lambda>(now, p). (now, p, time pr)) qs)) =
              map (\<lambda>(now, p). if pktid_seen ord pr p then Inl OVPN_ERR_PKTID_REPLAY else Inr ())
                qs"
    by simp
  from full show "fst (ovpn_pktid_recv_unlocked ord texp
                   (snd (pktid_recv_seq ord texp pr (map (\<lambda>(now, p). (now, p, time pr)) qs)))
                   now' y (time pr)) = Inl OVPN_ERR_PKTID_REPLAY"
    by simp
  assume "pr = snd (pktid_recv_seq ord texp (ovpn_pktid_recv_init ord) rs)"
  with full show "pktid_seen ord pr (id_recv pr)"
    by simp
qed

theorem replay_window_accept_witness:
  "(0 :: nat) \<le> 28 \<and>
   pktid_no_expiry 0 30 (snd (ovpn_pktid_recv_unlocked 0 30 (ovpn_pktid_recv_init 0) 0 3 1000))
     [(1, 1, 1000), (2, 2, 1000), (3, 5, 1000), (4, 4, 1000), (5, 8, 1000), (6, 6, 1000),
      (7, 7, 1000), (8, 4, 1000)] \<and>
   fst (pktid_recv_seq 0 30 (ovpn_pktid_recv_init 0)
     [(0, 3, 1000), (1, 1, 1000), (2, 2, 1000), (3, 5, 1000), (4, 4, 1000), (5, 8, 1000),
      (6, 6, 1000), (7, 7, 1000)])
   = [Inr (), Inr (), Inr (), Inr (), Inr (), Inr (), Inr (), Inr ()] \<and>
   fst (ovpn_pktid_recv_unlocked 0 30
     (snd (pktid_recv_seq 0 30 (ovpn_pktid_recv_init 0)
       [(0, 3, 1000), (1, 1, 1000), (2, 2, 1000), (3, 5, 1000), (4, 4, 1000), (5, 8, 1000),
        (6, 6, 1000), (7, 7, 1000)]))
     8 4 1000) = Inl OVPN_ERR_PKTID_REPLAY \<and>
   snd ` set [(1, 5), (2, 8), (3, 2), (4, 7), (5, 1), (6, 3), (7, 6), (8, 4) :: ulong \<times> u32] =
     pktid_window_ids 0
       \<lparr>history = [1], base = 0, extent = 8, expire = 30, id_recv = 8, time = 0,
         id_floor = 0, max_backtrack = 0\<rparr> \<and>
   pktid_no_expiry 0 30
     \<lparr>history = [1], base = 0, extent = 8, expire = 30, id_recv = 8, time = 0,
       id_floor = 0, max_backtrack = 0\<rparr>
     [(1, 5, 0), (2, 8, 0), (3, 2, 0), (4, 7, 0), (5, 1, 0), (6, 3, 0), (7, 6, 0), (8, 4, 0),
      (9, 5, 0)] \<and>
   fst (pktid_recv_seq 0 30
     \<lparr>history = [1], base = 0, extent = 8, expire = 30, id_recv = 8, time = 0,
       id_floor = 0, max_backtrack = 0\<rparr>
     [(1, 5, 0), (2, 8, 0), (3, 2, 0), (4, 7, 0), (5, 1, 0), (6, 3, 0), (7, 6, 0), (8, 4, 0)])
   = [Inr (), Inl OVPN_ERR_PKTID_REPLAY, Inr (), Inr (), Inr (), Inr (), Inr (), Inr ()] \<and>
   fst (ovpn_pktid_recv_unlocked 0 30
     (snd (pktid_recv_seq 0 30
       \<lparr>history = [1], base = 0, extent = 8, expire = 30, id_recv = 8, time = 0,
         id_floor = 0, max_backtrack = 0\<rparr>
       [(1, 5, 0), (2, 8, 0), (3, 2, 0), (4, 7, 0), (5, 1, 0), (6, 3, 0), (7, 6, 0), (8, 4, 0)]))
     9 5 0) = Inl OVPN_ERR_PKTID_REPLAY"
proof -
  let ?init = "ovpn_pktid_recv_init 0"
  let ?ps = "[(1, 1), (2, 2), (3, 5), (4, 4), (5, 8), (6, 6), (7, 7)] :: (ulong \<times> u32) list"
  let ?pr = "\<lparr>history = [1], base = 0, extent = 8, expire = 30, id_recv = 8, time = 0,
       id_floor = 0, max_backtrack = 0\<rparr> :: ovpn_pktid_recv"
  let ?qs = "[(1, 5), (2, 8), (3, 2), (4, 7), (5, 1), (6, 3), (7, 6), (8, 4)] :: (ulong \<times> u32) list"
  have small: "(0 :: nat) \<le> 28" by simp
  have W: "REPLAY_WINDOW_SIZE 0 = 8"
    by (simp add: REPLAY_WINDOW_SIZE_def REPLAY_WINDOW_BYTES_def)
  have len0: "length (history ?init) = REPLAY_WINDOW_BYTES 0"
    by (simp add: ovpn_pktid_recv_init_def)
  have fresh: "time ?init < 1000 \<or>
      (time ?init = 1000 \<and> extent ?init = 0 \<and> id_recv ?init = 0 \<and> id_floor ?init = 0)"
    by (simp add: ovpn_pktid_recv_init_def)
  have dist0: "distinct ((3 :: u32) # map snd ?ps)" by simp
  have range: "\<forall>p \<in> insert (3 :: u32) (snd ` set ?ps).
      0 < unat p \<and> unat p \<le> 0 + unat (REPLAY_WINDOW_SIZE 0)"
    by (simp add: W)
  have noexp0: "pktid_no_expiry 0 30 (snd (ovpn_pktid_recv_unlocked 0 30 ?init 0 3 1000))
      (map (\<lambda>(now, p). (now, p, 1000)) ?ps @ [(8, 4, 1000)])"
    by code_simp
  have x: "(4 :: u32) \<in> insert 3 (snd ` set ?ps)" by simp
  note part1 = replay_window_accept [OF small len0, of 1000 3 ?ps 0 30 0 8 4,
      THEN conjunct1, THEN mp, OF conjI [OF fresh conjI [OF dist0 conjI [OF range
        conjI [OF noexp0 x]]]]]
  have len: "length (history ?pr) = REPLAY_WINDOW_BYTES 0"
    by (simp add: REPLAY_WINDOW_BYTES_def)
  have ext: "extent ?pr = REPLAY_WINDOW_SIZE 0" by (simp add: W)
  have room: "unat (id_floor ?pr) + unat (REPLAY_WINDOW_SIZE 0) \<le> unat (id_recv ?pr)"
    by (simp add: W)
  have dist: "distinct (map snd ?qs)" by simp
  have range8: "{0 ..< unat (REPLAY_WINDOW_SIZE 0)} = {0, 1, 2, 3, 4, 5, 6, 7}"
    unfolding W by auto
  have ids: "pktid_window_ids 0 ?pr = {8, 7, 6, 5, 4, 3, 2, 1}"
    unfolding pktid_window_ids_def range8 by simp
  have perm: "snd ` set ?qs = pktid_window_ids 0 ?pr"
    unfolding ids by auto
  have noexp: "pktid_no_expiry 0 30 ?pr
      (map (\<lambda>(now, p). (now, p, time ?pr)) ?qs @ [(9, 5, time ?pr)])"
    by code_simp
  have y: "(5 :: u32) \<in> pktid_window_ids 0 ?pr"
    unfolding ids by simp
  have seen: "map (\<lambda>(now, p). if pktid_seen 0 ?pr p then Inl OVPN_ERR_PKTID_REPLAY else Inr ()) ?qs
      = [Inr (), Inl OVPN_ERR_PKTID_REPLAY, Inr (), Inr (), Inr (), Inr (), Inr (), Inr ()]"
    by code_simp
  note part2 = replay_window_accept [OF small len, where qs = ?qs and texp = 30 and now' = 9
        and y = 5, THEN conjunct2, THEN mp, OF conjI [OF ext conjI [OF room conjI [OF dist
        conjI [OF perm conjI [OF noexp y]]]]]]
  from part1 part2 [THEN conjunct1] part2 [THEN conjunct2, THEN conjunct1] small noexp0 perm noexp
  show ?thesis
    unfolding seen by simp
qed

text \<open>
  The claim without the amendment fails in the state reached from the initial state
  by accepting id 8 with a window of 8 bits: the ids 1, \<dots>, 8 are above the floor and
  the window does not expire, but id 8, presented first, is rejected as a replay.
\<close>

theorem replay_window_accept_counterexample:
  "ovpn_pktid_recv_unlocked 0 30 (ovpn_pktid_recv_init 0) 0 8 0 =
     (Inr (), \<lparr>history = [1], base = 0, extent = 8, expire = 30, id_recv = 8, time = 0,
               id_floor = 0, max_backtrack = 0\<rparr>) \<and>
   pktid_no_expiry 0 30
     \<lparr>history = [1], base = 0, extent = 8, expire = 30, id_recv = 8, time = 0,
       id_floor = 0, max_backtrack = 0\<rparr>
     [(1, 8, 0), (2, 7, 0), (3, 6, 0), (4, 5, 0), (5, 4, 0), (6, 3, 0), (7, 2, 0), (8, 1, 0)] \<and>
   fst (pktid_recv_seq 0 30
     \<lparr>history = [1], base = 0, extent = 8, expire = 30, id_recv = 8, time = 0,
       id_floor = 0, max_backtrack = 0\<rparr>
     [(1, 8, 0), (2, 7, 0), (3, 6, 0), (4, 5, 0), (5, 4, 0), (6, 3, 0), (7, 2, 0), (8, 1, 0)])
   = [Inl OVPN_ERR_PKTID_REPLAY, Inr (), Inr (), Inr (), Inr (), Inr (), Inr (), Inr ()]"
  by code_simp

section \<open>Properties of the transmit counter\<close>

lemma xmit_next_cases:
  "ovpn_pktid_xmit_next pid epoch =
     (if unat (seq_num pid) + 1 < 0xFFFFFFFF
      then (Inr (of_nat (unat (seq_num pid) + 1), epoch), pid\<lparr>seq_num := seq_num pid + 1\<rparr>)
      else (Inl REKEY_NEEDED, pid))"
proof (cases "unat (seq_num pid) + 1 < 0xFFFFFFFF")
  case True
  then have n: "unat (seq_num pid + 1) = unat (seq_num pid) + 1"
    by (simp add: unat_word_ariths)
  have "(ucast (seq_num pid + 1) :: u32) = of_nat (unat (seq_num pid + 1))"
    by simp
  with True n show ?thesis
    by (simp add: ovpn_pktid_xmit_next_def Let_def)
next
  case False
  then show ?thesis
    by (simp add: ovpn_pktid_xmit_next_def Let_def)
qed

lemma xmit_next_seq_from:
  "fst (xmit_next_seq pid epoch n) =
     map (\<lambda>i. if unat (seq_num pid) + i + 1 < 0xFFFFFFFF
              then Inr (of_nat (unat (seq_num pid) + i + 1), epoch)
              else Inl REKEY_NEEDED) [0 ..< n]"
proof (induction n arbitrary: pid)
  case 0
  show ?case by simp
next
  case (Suc n)
  have upt: "[0 ..< Suc n] = 0 # map Suc [0 ..< n]"
    by (simp add: upt_conv_Cons map_Suc_upt del: upt_Suc)
  show ?case
  proof (cases "unat (seq_num pid) + 1 < 0xFFFFFFFF")
    case True
    then have n: "unat (seq_num pid + 1) = unat (seq_num pid) + 1"
      by (simp add: unat_word_ariths)
    show ?thesis
      unfolding upt using True n
      by (simp add: xmit_next_cases Suc.IH split_def Let_def comp_def del: upt_Suc)
  next
    case False
    then show ?thesis
      unfolding upt
      by (simp add: xmit_next_cases Suc.IH split_def Let_def comp_def del: upt_Suc)
  qed
qed

lemma xmit_next_seq_init:
  "fst (xmit_next_seq ovpn_pktid_xmit_init epoch n) =
     map (\<lambda>i. if i + 1 < 0xFFFFFFFF then Inr (of_nat (i + 1), epoch) else Inl REKEY_NEEDED)
       [0 ..< n]"
  using xmit_next_seq_from [of ovpn_pktid_xmit_init epoch n]
  by (simp add: ovpn_pktid_xmit_init_def)


text \<open>
  Claim C6. When the increment would make the packet id \<open>0xFFFFFFFF\<close> or more, the call
  returns \<open>REKEY_NEEDED\<close>, produces no packet id and leaves the counter as it was. A
  call that succeeds returns the counter plus one, unwrapped and below \<open>0xFFFFFFFF\<close>.
  From \<open>ovpn_pktid_xmit_init\<close> the calls therefore return 1, 2, 3, \<dots> up to
  \<open>0xFFFFFFFE\<close> and fail from then on.
\<close>

theorem xmit_rekey_needed:
  "(0xFFFFFFFF \<le> unat (seq_num pid) + 1 \<longrightarrow>
      ovpn_pktid_xmit_next pid epoch = (Inl REKEY_NEEDED, pid)) \<and>
   (\<forall>pkt e pid'. ovpn_pktid_xmit_next pid epoch = (Inr (pkt, e), pid') \<longrightarrow>
      unat pkt = unat (seq_num pid) + 1 \<and> pkt \<noteq> 0 \<and> pkt < 0xFFFFFFFF \<and> e = epoch \<and>
      unat (seq_num pid') = unat (seq_num pid) + 1) \<and>
   fst (xmit_next_seq ovpn_pktid_xmit_init epoch n) =
     map (\<lambda>i. if i + 1 < 0xFFFFFFFF then Inr (of_nat (i + 1), epoch) else Inl REKEY_NEEDED)
       [0 ..< n]"
proof (intro conjI allI impI)
  show "fst (xmit_next_seq ovpn_pktid_xmit_init epoch n) =
     map (\<lambda>i. if i + 1 < 0xFFFFFFFF then Inr (of_nat (i + 1), epoch) else Inl REKEY_NEEDED)
       [0 ..< n]"
    by (rule xmit_next_seq_init)
next
  assume "0xFFFFFFFF \<le> unat (seq_num pid) + 1"
  then show "ovpn_pktid_xmit_next pid epoch = (Inl REKEY_NEEDED, pid)"
    by (simp add: ovpn_pktid_xmit_next_def)
next
  fix pkt e pid'
  assume ok: "ovpn_pktid_xmit_next pid epoch = (Inr (pkt, e), pid')"
  then have small: "unat (seq_num pid) + 1 < 0xFFFFFFFF"
    by (simp add: ovpn_pktid_xmit_next_def Let_def split: if_splits)
  from ok small have pkt: "pkt = ucast (seq_num pid + 1)" and e: "e = epoch"
    and pid': "pid' = pid\<lparr>seq_num := seq_num pid + 1\<rparr>"
    by (simp_all add: ovpn_pktid_xmit_next_def Let_def)
  have n: "unat (seq_num pid + 1) = unat (seq_num pid) + 1"
    using small by (simp add: unat_word_ariths)
  have u: "unat pkt = unat (seq_num pid) + 1"
    unfolding pkt using small n by (simp add: unsigned_ucast_eq take_bit_nat_eq_self)
  show "unat pkt = unat (seq_num pid) + 1" by (rule u)
  show "pkt \<noteq> 0" using u by (auto simp add: unat_eq_0 [symmetric])
  show "pkt < 0xFFFFFFFF" using u small by (simp add: word_less_nat_alt)
  show "e = epoch" by (rule e)
  show "unat (seq_num pid') = unat (seq_num pid) + 1" using pid' n by simp
qed

theorem xmit_rekey_needed_witness:
  "(0xFFFFFFFF :: nat) \<le> unat (seq_num \<lparr>seq_num = 0xFFFFFFFE, tcp_linear = None\<rparr>) + 1 \<and>
   ovpn_pktid_xmit_next \<lparr>seq_num = 0xFFFFFFFE, tcp_linear = None\<rparr> 1000 =
     (Inl REKEY_NEEDED, \<lparr>seq_num = 0xFFFFFFFE, tcp_linear = None\<rparr>) \<and>
   ovpn_pktid_xmit_next \<lparr>seq_num = 0xFFFFFFFD, tcp_linear = None\<rparr> 1000 =
     (Inr (0xFFFFFFFE, 1000), \<lparr>seq_num = 0xFFFFFFFE, tcp_linear = None\<rparr>) \<and>
   unat (0xFFFFFFFE :: u32) = unat (seq_num \<lparr>seq_num = 0xFFFFFFFD, tcp_linear = None\<rparr>) + 1"
proof -
  have h: "(0xFFFFFFFF :: nat) \<le> unat (seq_num \<lparr>seq_num = 0xFFFFFFFE, tcp_linear = None\<rparr>) + 1"
    by simp
  have ok: "ovpn_pktid_xmit_next \<lparr>seq_num = 0xFFFFFFFD, tcp_linear = None\<rparr> 1000 =
     (Inr (0xFFFFFFFE, 1000), \<lparr>seq_num = 0xFFFFFFFE, tcp_linear = None\<rparr>)"
    by (simp add: ovpn_pktid_xmit_next_def Let_def)
  from xmit_rekey_needed [of "\<lparr>seq_num = 0xFFFFFFFE, tcp_linear = None\<rparr>" 1000, THEN conjunct1, THEN mp, OF h]
    xmit_rekey_needed [of "\<lparr>seq_num = 0xFFFFFFFD, tcp_linear = None\<rparr>" 1000, THEN conjunct2,
      THEN conjunct1, rule_format, OF ok]
    h ok
  show ?thesis by simp
qed

section \<open>Properties of the datapath\<close>

subsection \<open>Dispatch of received packets\<close>

lemma recv_crypto_not_data:
  assumes "peer = None \<or> \<not> ovpn_opcode_is_data env op"
  shows "ovpn_recv_crypto env peer op skb =
     (if skb_linearize env (data skb) < 0 then recv_drop peer
      else EV_netlink_send_packet (data skb) #
           (if ovpn_netlink_send_packet env (data skb) < 0 then recv_drop peer
            else EV_consume_skb # (if peer \<noteq> None then [EV_peer_put] else [])))"
  using assms
  by (cases peer) (auto simp add: ovpn_recv_crypto_def ovpn_transport_to_userspace_def Let_def)


text \<open>
  Claim C7, as amended. When the peer is absent or the opcode is not a data opcode,
  \<open>ovpn_recv_crypto\<close> hands the packet to \<open>ovpn_transport_to_userspace\<close>: if
  \<open>skb_linearize\<close> succeeds the bytes of the packet, unchanged, are sent by
  \<open>ovpn_netlink_send_packet\<close>; if it fails the packet is dropped and nothing is sent. In
  neither case is decrypt called. Decrypt is called only when a peer is present and the
  opcode is a data opcode.
\<close>

theorem rx_dispatch:
  "((peer = None \<or> \<not> ovpn_opcode_is_data env op) \<longrightarrow>
      ovpn_recv_crypto env peer op skb =
        (if skb_linearize env (data skb) < 0 then recv_drop peer
         else EV_netlink_send_packet (data skb) #
              (if ovpn_netlink_send_packet env (data skb) < 0 then recv_drop peer
               else EV_consume_skb # (if peer \<noteq> None then [EV_peer_put] else []))) \<and>
      (\<forall>e \<in> set (ovpn_recv_crypto env peer op skb). \<not> is_decrypt e)) \<and>
   ((\<exists>e \<in> set (ovpn_recv_crypto env peer op skb). is_decrypt e) \<longrightarrow>
      peer \<noteq> None \<and> ovpn_opcode_is_data env op)"
proof -
  have nd: "\<forall>e \<in> set (ovpn_recv_crypto env peer op skb). \<not> is_decrypt e"
    if "peer = None \<or> \<not> ovpn_opcode_is_data env op"
    unfolding recv_crypto_not_data [OF that]
    by (simp add: recv_drop_def is_decrypt_def)
  show ?thesis
  proof (intro conjI impI)
    assume h: "peer = None \<or> \<not> ovpn_opcode_is_data env op"
    show "ovpn_recv_crypto env peer op skb =
        (if skb_linearize env (data skb) < 0 then recv_drop peer
         else EV_netlink_send_packet (data skb) #
              (if ovpn_netlink_send_packet env (data skb) < 0 then recv_drop peer
               else EV_consume_skb # (if peer \<noteq> None then [EV_peer_put] else [])))"
      by (rule recv_crypto_not_data [OF h])
    show "\<forall>e \<in> set (ovpn_recv_crypto env peer op skb). \<not> is_decrypt e"
      by (rule nd [OF h])
  next
    assume d: "\<exists>e \<in> set (ovpn_recv_crypto env peer op skb). is_decrypt e"
    show "peer \<noteq> None"
    proof
      assume "peer = None"
      then have "\<forall>e \<in> set (ovpn_recv_crypto env peer op skb). \<not> is_decrypt e"
        by (intro nd) simp
      with d show False by simp
    qed
    show "ovpn_opcode_is_data env op"
    proof (rule ccontr)
      assume "\<not> ovpn_opcode_is_data env op"
      then have "\<forall>e \<in> set (ovpn_recv_crypto env peer op skb). \<not> is_decrypt e"
        by (intro nd) simp
      with d show False by simp
    qed
  qed
qed

theorem rx_dispatch_witness:
  "ovpn_recv_crypto
     \<lparr>ovpn_opcode_is_data = (\<lambda>op. op = 9), ovpn_key_id_extract = (\<lambda>op. 0),
      ovpn_ip_header_probe = (\<lambda>d. 0), skb_linearize = (\<lambda>d. 0),
      ovpn_netlink_send_packet = (\<lambda>d. 0), decrypt = (\<lambda>cc d k op. (0, [0x45, 0])),
      ovpn_keepalive_message = []\<rparr>
     (Some \<lparr>bind = Some 0, crypto_slots = [(0, 7)], crypto_primary = Some (7, 0)\<rparr>)
     7 \<lparr>data = [0x38, 1, 2], cb_rx_stats_size = 0\<rparr>
   = [EV_netlink_send_packet [0x38, 1, 2], EV_consume_skb, EV_peer_put] \<and>
   ovpn_recv_crypto
     \<lparr>ovpn_opcode_is_data = (\<lambda>op. op = 9), ovpn_key_id_extract = (\<lambda>op. 0),
      ovpn_ip_header_probe = (\<lambda>d. 0), skb_linearize = (\<lambda>d. 0),
      ovpn_netlink_send_packet = (\<lambda>d. 0), decrypt = (\<lambda>cc d k op. (0, [0x45, 0])),
      ovpn_keepalive_message = []\<rparr>
     (Some \<lparr>bind = Some 0, crypto_slots = [(0, 7)], crypto_primary = Some (7, 0)\<rparr>)
     9 \<lparr>data = [0x48, 1, 2], cb_rx_stats_size = 0\<rparr>
   = [EV_decrypt 7 0 9, EV_kfree_work, EV_peer_update_keepalive_expire,
      EV_peer_stats_increment_rx 3, EV_netif_rx [0x45, 0], EV_crypto_context_put, EV_peer_put] \<and>
   ovpn_opcode_is_data
     \<lparr>ovpn_opcode_is_data = (\<lambda>op. op = 9), ovpn_key_id_extract = (\<lambda>op. 0),
      ovpn_ip_header_probe = (\<lambda>d. 0), skb_linearize = (\<lambda>d. 0),
      ovpn_netlink_send_packet = (\<lambda>d. 0), decrypt = (\<lambda>cc d k op. (0, [0x45, 0])),
      ovpn_keepalive_message = []\<rparr> 9"
proof -
  let ?env = "\<lparr>ovpn_opcode_is_data = (\<lambda>op. op = 9), ovpn_key_id_extract = (\<lambda>op. 0),
      ovpn_ip_header_probe = (\<lambda>d. 0), skb_linearize = (\<lambda>d. 0),
      ovpn_netlink_send_packet = (\<lambda>d. 0), decrypt = (\<lambda>cc d k op. (0, [0x45, 0])),
      ovpn_keepalive_message = []\<rparr> :: rx_env"
  let ?peer = "Some \<lparr>bind = Some 0, crypto_slots = [(0, 7)], crypto_primary = Some (7, 0)\<rparr>
      :: ovpn_peer option"
  let ?ctl = "\<lparr>data = [0x38, 1, 2], cb_rx_stats_size = 0\<rparr> :: sk_buff"
  let ?dat = "\<lparr>data = [0x48, 1, 2], cb_rx_stats_size = 0\<rparr> :: sk_buff"
  have h: "?peer = None \<or> \<not> ovpn_opcode_is_data ?env 7"
    by simp
  have run: "ovpn_recv_crypto ?env ?peer 9 ?dat =
      [EV_decrypt 7 0 9, EV_kfree_work, EV_peer_update_keepalive_expire,
       EV_peer_stats_increment_rx 3, EV_netif_rx [0x45, 0], EV_crypto_context_put, EV_peer_put]"
    by (simp add: ovpn_recv_crypto_def ovpn_crypto_context_from_state_def post_decrypt_def
          tun_netdev_write_def EINPROGRESS_def Let_def)
  then have d: "\<exists>e \<in> set (ovpn_recv_crypto ?env ?peer 9 ?dat). is_decrypt e"
    by (simp add: is_decrypt_def)
  from rx_dispatch [of ?peer ?env 7 ?ctl, THEN conjunct1, THEN mp, OF h, THEN conjunct1]
    rx_dispatch [of ?peer ?env 9 ?dat, THEN conjunct2, THEN mp, OF d] run
  show ?thesis by simp
qed

text \<open>
  The claim without the amendment fails: with no peer and a failing \<open>skb_linearize\<close>
  (\<open>-ENOMEM\<close>) the packet is freed and the control plane receives nothing.
\<close>

theorem rx_dispatch_forward_counterexample:
  "ovpn_recv_crypto
     \<lparr>ovpn_opcode_is_data = (\<lambda>op. op = 9), ovpn_key_id_extract = (\<lambda>op. 0),
      ovpn_ip_header_probe = (\<lambda>d. 0), skb_linearize = (\<lambda>d. - ENOMEM),
      ovpn_netlink_send_packet = (\<lambda>d. 0), decrypt = (\<lambda>cc d k op. (0, d)),
      ovpn_keepalive_message = []\<rparr>
     None 7 \<lparr>data = [0x38, 1, 2], cb_rx_stats_size = 0\<rparr>
   = [EV_kfree_skb] \<and>
   EV_netlink_send_packet [0x38, 1, 2] \<notin> set (ovpn_recv_crypto
     \<lparr>ovpn_opcode_is_data = (\<lambda>op. op = 9), ovpn_key_id_extract = (\<lambda>op. 0),
      ovpn_ip_header_probe = (\<lambda>d. 0), skb_linearize = (\<lambda>d. - ENOMEM),
      ovpn_netlink_send_packet = (\<lambda>d. 0), decrypt = (\<lambda>cc d k op. (0, d)),
      ovpn_keepalive_message = []\<rparr>
     None 7 \<lparr>data = [0x38, 1, 2], cb_rx_stats_size = 0\<rparr>)"
  by (simp add: ovpn_recv_crypto_def ovpn_transport_to_userspace_def recv_drop_def Let_def
        ENOMEM_def)

subsection \<open>Keepalive messages\<close>

text \<open>
  Claim C8. A decrypted buffer whose payload is the 16-byte keepalive message, which the
  IP header probe rejects as it rejects everything that is not an IP packet, makes
  \<open>tun_netdev_write\<close> update the keepalive expiry of the peer, count the received bytes
  and consume the buffer; it returns 0, and \<open>post_decrypt\<close> makes no call of
  \<open>netif_rx\<close>.
\<close>

theorem keepalive_rx:
  assumes "data skb = ovpn_keepalive_message env"
    and "length (ovpn_keepalive_message env) = 16"
    and "ovpn_ip_header_probe env (data skb) < 0"
  shows "tun_netdev_write env skb =
           (0, [EV_peer_update_keepalive_expire,
                EV_peer_stats_increment_rx (cb_rx_stats_size skb), EV_consume_skb]) \<and>
         post_decrypt env skb 0 =
           [EV_kfree_work, EV_peer_update_keepalive_expire,
            EV_peer_stats_increment_rx (cb_rx_stats_size skb), EV_consume_skb,
            EV_crypto_context_put, EV_peer_put] \<and>
         (\<forall>e \<in> set (post_decrypt env skb 0). \<not> is_netif_rx e)"
proof -
  have pull: "pskb_may_pull skb 1"
    using assms(1,2) by (simp add: pskb_may_pull_def)
  have ka: "ovpn_is_keepalive env skb"
    using assms(1) by (simp add: ovpn_is_keepalive_def)
  have w: "tun_netdev_write env skb =
           (0, [EV_peer_update_keepalive_expire,
                EV_peer_stats_increment_rx (cb_rx_stats_size skb), EV_consume_skb])"
    using pull ka assms(3) by (simp add: tun_netdev_write_def tun_drop_def Let_def)
  then show ?thesis
    by (simp add: post_decrypt_def is_netif_rx_def)
qed

theorem keepalive_rx_witness:
  "length [0x2a, 0x18, 0x7b, 0xf3, 0x64, 0x1e, 0xb4, 0xcb,
           0x07, 0xed, 0x2d, 0x0a, 0x98, 0x1f, 0xc7, 0x48 :: u8] = 16 \<and>
   (if drop_bit 4 (0x2a :: u8) = 4 \<or> drop_bit 4 (0x2a :: u8) = 6 then 0 else - 1 :: int) < 0 \<and>
   post_decrypt
     \<lparr>ovpn_opcode_is_data = (\<lambda>op. op = 9), ovpn_key_id_extract = (\<lambda>op. 0),
      ovpn_ip_header_probe =
        (\<lambda>d. if drop_bit 4 (hd d) = 4 \<or> drop_bit 4 (hd d) = 6 then 0 else - 1),
      skb_linearize = (\<lambda>d. 0),
      ovpn_netlink_send_packet = (\<lambda>d. 0), decrypt = (\<lambda>cc d k op. (0, d)),
      ovpn_keepalive_message =
        [0x2a, 0x18, 0x7b, 0xf3, 0x64, 0x1e, 0xb4, 0xcb,
         0x07, 0xed, 0x2d, 0x0a, 0x98, 0x1f, 0xc7, 0x48]\<rparr>
     \<lparr>data = [0x2a, 0x18, 0x7b, 0xf3, 0x64, 0x1e, 0xb4, 0xcb,
              0x07, 0xed, 0x2d, 0x0a, 0x98, 0x1f, 0xc7, 0x48], cb_rx_stats_size = 40\<rparr> 0
   = [EV_kfree_work, EV_peer_update_keepalive_expire, EV_peer_stats_increment_rx 40,
      EV_consume_skb, EV_crypto_context_put, EV_peer_put]"
proof -
  let ?msg = "[0x2a, 0x18, 0x7b, 0xf3, 0x64, 0x1e, 0xb4, 0xcb,
               0x07, 0xed, 0x2d, 0x0a, 0x98, 0x1f, 0xc7, 0x48] :: u8 list"
  let ?env = "\<lparr>ovpn_opcode_is_data = (\<lambda>op. op = 9), ovpn_key_id_extract = (\<lambda>op. 0),
      ovpn_ip_header_probe =
        (\<lambda>d. if drop_bit 4 (hd d) = 4 \<or> drop_bit 4 (hd d) = 6 then 0 else - 1),
      skb_linearize = (\<lambda>d. 0),
      ovpn_netlink_send_packet = (\<lambda>d. 0), decrypt = (\<lambda>cc d k op. (0, d)),
      ovpn_keepalive_message = ?msg\<rparr> :: rx_env"
  let ?skb = "\<lparr>data = ?msg, cb_rx_stats_size = 40\<rparr> :: sk_buff"
  have h1: "data ?skb = ovpn_keepalive_message ?env" by simp
  have h2: "length (ovpn_keepalive_message ?env) = 16" by simp
  have nib: "drop_bit 4 (0x2a :: u8) = 2" by (simp add: drop_bit_eq_div)
  have h3: "ovpn_ip_header_probe ?env (data ?skb) < 0" by (simp add: nib)
  from keepalive_rx [OF h1 h2 h3, THEN conjunct2, THEN conjunct1] h2 h3
  show ?thesis by simp
qed

subsection \<open>The headroom test of the transmit path\<close>

lemma unsigned_never_negative: "\<not> (h :: u32) < 0"
  by simp


text \<open>
  Claim C10. In \<open>do_ovpn_net_xmit\<close> the test \<open>headroom < 0\<close> is on an unsigned value
  and is never true: the function never leaves through that branch (it never returns
  the \<open>-1\<close> that it would return there), and whenever peer, binding and primary context
  are present it calls encrypt with the overhead converted to \<open>unsigned int\<close>, also
  when \<open>ovpn_bind_udp_encap_overhead\<close> returned a negative number.
\<close>

theorem headroom_guard_unreachable:
  "(\<forall>b. \<not> (word_of_int (ovpn_bind_udp_encap_overhead env b ETH_HLEN) :: u32) < 0) \<and>
   fst (do_ovpn_net_xmit env peer skb is_ip_packet) \<noteq> - 1 \<and>
   (\<forall>p b cc key_id.
      peer = Some p \<and> bind p = Some b \<and> ovpn_crypto_context_primary p = Some (cc, key_id) \<longrightarrow>
        do_ovpn_net_xmit env peer skb is_ip_packet =
          (0, [EV_encrypt cc (word_of_int (ovpn_bind_udp_encap_overhead env b ETH_HLEN)) key_id] @
              (if encrypt env cc (data skb)
                    (word_of_int (ovpn_bind_udp_encap_overhead env b ETH_HLEN)) key_id
                  \<noteq> - EINPROGRESS
               then post_encrypt
                      (encrypt env cc (data skb)
                         (word_of_int (ovpn_bind_udp_encap_overhead env b ETH_HLEN)) key_id)
               else [])))"
proof (intro conjI allI impI)
  fix b
  show "\<not> (word_of_int (ovpn_bind_udp_encap_overhead env b ETH_HLEN) :: u32) < 0"
    by (rule unsigned_never_negative)
next
  show "fst (do_ovpn_net_xmit env peer skb is_ip_packet) \<noteq> - 1"
    by (simp add: do_ovpn_net_xmit_def Let_def ENOLINK_def ENOENT_def ENODEV_def
          split: option.split prod.split)
next
  fix p b cc key_id
  assume "peer = Some p \<and> bind p = Some b \<and> ovpn_crypto_context_primary p = Some (cc, key_id)"
  then show "do_ovpn_net_xmit env peer skb is_ip_packet =
          (0, [EV_encrypt cc (word_of_int (ovpn_bind_udp_encap_overhead env b ETH_HLEN)) key_id] @
              (if encrypt env cc (data skb)
                    (word_of_int (ovpn_bind_udp_encap_overhead env b ETH_HLEN)) key_id
                  \<noteq> - EINPROGRESS
               then post_encrypt
                      (encrypt env cc (data skb)
                         (word_of_int (ovpn_bind_udp_encap_overhead env b ETH_HLEN)) key_id)
               else []))"
    by (simp add: do_ovpn_net_xmit_def Let_def)
qed

theorem headroom_guard_unreachable_witness:
  "do_ovpn_net_xmit
     \<lparr>ovpn_bind_udp_encap_overhead = (\<lambda>b h. - 22), encrypt = (\<lambda>cc d h k. 0)\<rparr>
     (Some \<lparr>bind = Some 0, crypto_slots = [(3, 7)], crypto_primary = Some (7, 3)\<rparr>)
     \<lparr>data = [0x45, 0], cb_rx_stats_size = 0\<rparr> True
   = (0, [EV_encrypt 7 0xFFFFFFEA 3, EV_kfree_work, EV_udp_write, EV_crypto_context_put,
          EV_peer_put])"
proof -
  let ?env = "\<lparr>ovpn_bind_udp_encap_overhead = (\<lambda>b h. - 22), encrypt = (\<lambda>cc d h k. 0)\<rparr>
                :: tx_env"
  let ?p = "\<lparr>bind = Some 0, crypto_slots = [(3, 7)], crypto_primary = Some (7, 3)\<rparr>
              :: ovpn_peer"
  have h: "Some ?p = Some ?p \<and> bind ?p = Some 0 \<and> ovpn_crypto_context_primary ?p = Some (7, 3)"
    by (simp add: ovpn_crypto_context_primary_def)
  from headroom_guard_unreachable [of ?env "Some ?p" "\<lparr>data = [0x45, 0], cb_rx_stats_size = 0\<rparr>" True,
      THEN conjunct2, THEN conjunct2, rule_format, OF h]
  show ?thesis
    by (simp add: post_encrypt_def EINPROGRESS_def)
qed

end
